theory Spec2Isabelle
  imports Main "HOL-Library.Word"
begin

section \<open>Values, errors and slices of the Go program\<close>

text \<open>
  \<^verbatim>\<open>Key\<close>, \<^verbatim>\<open>Value\<close>, \<^verbatim>\<open>Attribute\<close> and \<^verbatim>\<open>ObjectType\<close> are all declared
  \<^verbatim>\<open>interface{}\<close>. The dynamic values that occur here are \<^verbatim>\<open>nil\<close>, integers
  (\<^verbatim>\<open>AttrDataLoader.LoadAll\<close> boxes slice indices) and strings (the tags of the README).
  All of them are comparable and hashable, so \<^verbatim>\<open>==\<close> and map lookups on them do not
  panic, and \<^verbatim>\<open>==\<close> is HOL equality.
\<close>

datatype iface = INil | IInt int | IStr string

type_synonym Key = iface
type_synonym Value = iface
type_synonym Attribute = iface
type_synonym ObjectType = iface

text \<open>
  The \<^verbatim>\<open>error\<close> interface: the two error structs of the package, each with its
  \<^verbatim>\<open>msg\<close>, and any other error (what a fetcher returns). The \<^verbatim>\<open>nil\<close> error is
  \<open>None\<close>.
\<close>

datatype error = ObjTypeNotRegError string | AttrNotRegError string | OtherError string

type_synonym err = "error option"

text \<open>A slice is \<^verbatim>\<open>nil\<close> (\<open>None\<close>) or holds a list; \<^verbatim>\<open>len\<close> of the nil slice is 0.\<close>

type_synonym 'a slice = "'a list option"

definition len :: "'a slice \<Rightarrow> nat" where
  "len s = (case s of None \<Rightarrow> 0 | Some xs \<Rightarrow> length xs)"

datatype panic = IndexOutOfRange | NilFuncCall | CloseOfClosedChannel

text \<open>
  What a call does: it returns, it panics, or it blocks (a receive on a channel that
  nothing will close).
\<close>

datatype 'a outcome = Ok 'a | Panic panic | Blocked

definition obind :: "'a outcome \<Rightarrow> ('a \<Rightarrow> 'b outcome) \<Rightarrow> 'b outcome" where
  "obind x f = (case x of Ok a \<Rightarrow> f a | Panic p \<Rightarrow> Panic p | Blocked \<Rightarrow> Blocked)"

text \<open>\<^verbatim>\<open>s[i]\<close>: an index out of range panics.\<close>

definition index :: "'a slice \<Rightarrow> nat \<Rightarrow> 'a outcome" where
  "index s i = (case s of None \<Rightarrow> Panic IndexOutOfRange
     | Some xs \<Rightarrow> if i < length xs then Ok (xs ! i) else Panic IndexOutOfRange)"

section \<open>The error classification helper\<close>

text \<open>
  \<^verbatim>\<open>IsLoadingError\<close>: the type switch runs only for a non-nil error; every path that
  does not hit one of its two cases falls through to \<^verbatim>\<open>return true\<close>.
\<close>

fun IsLoadingError :: "err \<Rightarrow> bool" where
  "IsLoadingError (Some (ObjTypeNotRegError msg)) = False"
| "IsLoadingError (Some (AttrNotRegError msg)) = False"
| "IsLoadingError _ = True"

section \<open>DataLoader\<close>

text \<open>
  A fetcher is a Go closure, so it may answer differently from call to call: it takes the
  number of calls made before this one, then the keys.
\<close>

type_synonym Fetcher = "nat \<Rightarrow> Key list \<Rightarrow> Value slice \<times> err slice"

text \<open>The struct \<^verbatim>\<open>batch\<close>; \<open>done_ch\<close> says whether the channel \<^verbatim>\<open>done\<close> is closed.\<close>

record batch =
  keys :: "Key list"
  data :: "Value slice"
  error :: "err slice"
  closing :: bool
  done_ch :: bool

text \<open>
  The struct \<^verbatim>\<open>DataLoader\<close>. Batches are shared between the loader, the thunks and the
  goroutines, so they live in a store \<open>heap\<close> and \<^verbatim>\<open>*batch\<close> is an index into it.
  \<open>cache\<close> is \<open>None\<close> while the map is nil. \<^verbatim>\<open>maxBatch\<close> is a 64-bit \<^verbatim>\<open>int\<close>.
  \<^verbatim>\<open>wait\<close> is kept as given; how long a timer sleeps is left to the schedule.
  The goroutines started with \<^verbatim>\<open>go\<close> are kept as sets of batch addresses: \<open>timers\<close>
  for those in \<^verbatim>\<open>startTimer\<close> (asleep or waiting for the mutex), \<open>ending\<close> for those
  about to run \<^verbatim>\<open>b.end(l)\<close>. \<open>calls\<close> records every call of \<^verbatim>\<open>fetch\<close>: the batch it
  was made for and the key list it was given.
\<close>

record DataLoader =
  fetch :: Fetcher
  wait :: int
  maxBatch :: "64 word"
  cache :: "(Key \<rightharpoonup> Value) option"
  batch :: "nat option"
  heap :: "batch list"
  timers :: "nat set"
  ending :: "nat set"
  calls :: "(nat \<times> Key list) list"

definition NewDataLoader :: "64 word \<Rightarrow> int \<Rightarrow> Fetcher \<Rightarrow> DataLoader" where
  "NewDataLoader maxBatch' wait' fetch' =
     \<lparr>fetch = fetch', wait = wait', maxBatch = maxBatch', cache = None, batch = None,
      heap = [], timers = {}, ending = {}, calls = []\<rparr>"

text \<open>\<^verbatim>\<open>l.cache[key]\<close> with the comma-ok form; reading a nil map finds nothing.\<close>

definition cache_get :: "DataLoader \<Rightarrow> Key \<Rightarrow> Value option" where
  "cache_get l key = (case cache l of None \<Rightarrow> None | Some m \<Rightarrow> m key)"

definition unsafeSet :: "Key \<Rightarrow> Value \<Rightarrow> DataLoader \<Rightarrow> DataLoader" where
  "unsafeSet key value l =
     (let l1 = (if cache l = None then l\<lparr>cache := Some Map.empty\<rparr> else l)
      in case cache l1 of
           None \<Rightarrow> l1
         | Some m \<Rightarrow> l1\<lparr>cache := Some (m(key \<mapsto> value))\<rparr>)"

text \<open>The scan of \<^verbatim>\<open>keyIndex\<close>: the index of the first key equal to \<open>key\<close>.\<close>

fun scan :: "Key \<Rightarrow> Key list \<Rightarrow> nat option" where
  "scan key [] = None"
| "scan key (existingKey # rest) =
     (if key = existingKey then Some 0 else map_option Suc (scan key rest))"

text \<open>
  \<^verbatim>\<open>b.keyIndex(l, key)\<close> for the batch at address \<open>b\<close>. \<^verbatim>\<open>go b.startTimer(l)\<close> and
  \<^verbatim>\<open>go b.end(l)\<close> add a goroutine. The size test is
  \<^verbatim>\<open>l.maxBatch != 0 && pos >= l.maxBatch-1\<close> on signed 64-bit integers.
\<close>

definition keyIndex :: "nat \<Rightarrow> Key \<Rightarrow> DataLoader \<Rightarrow> nat \<times> DataLoader" where
  "keyIndex b key l =
     (case scan key (keys (heap l ! b)) of
        Some i \<Rightarrow> (i, l)
      | None \<Rightarrow>
          (let pos = length (keys (heap l ! b));
               l1 = l\<lparr>heap := (heap l)[b := (heap l ! b)\<lparr>keys := keys (heap l ! b) @ [key]\<rparr>]\<rparr>;
               l2 = (if pos = 0 then l1\<lparr>timers := insert b (timers l1)\<rparr> else l1);
               l3 = (if maxBatch l2 \<noteq> 0 \<and> sint (maxBatch l2 - 1) \<le> int pos
                     then (if \<not> closing (heap l2 ! b)
                           then l2\<lparr>heap := (heap l2)[b := (heap l2 ! b)\<lparr>closing := True\<rparr>],
                                   batch := None,
                                   ending := insert b (ending l2)\<rparr>
                           else l2)
                     else l2)
           in (pos, l3)))"

text \<open>
  What \<^verbatim>\<open>LoadThunk\<close> returns: the closure over the cached value, or the closure over
  \<^verbatim>\<open>batch\<close>, \<^verbatim>\<open>pos\<close> and \<^verbatim>\<open>key\<close>.
\<close>

datatype thunk = Cached Value | Pending nat nat Key

definition new_batch :: batch where
  "new_batch = \<lparr>keys = [], data = None, error = None, closing = False, done_ch = False\<rparr>"

text \<open>
  The part of \<^verbatim>\<open>LoadThunk\<close> that runs under the mutex, and the closure it returns.
  A new batch is allocated at the end of the store.
\<close>

definition LoadThunk :: "Key \<Rightarrow> DataLoader \<Rightarrow> thunk \<times> DataLoader" where
  "LoadThunk key l =
     (case cache_get l key of
        Some it \<Rightarrow> (Cached it, l)
      | None \<Rightarrow>
          (case batch l of
             None \<Rightarrow>
               (let b = length (heap l);
                    (pos, l2) = keyIndex b key (l\<lparr>heap := heap l @ [new_batch], batch := Some b\<rparr>)
                in (Pending b pos key, l2))
           | Some b \<Rightarrow> (let (pos, l2) = keyIndex b key l in (Pending b pos key, l2))))"

text \<open>
  \<^verbatim>\<open>startTimer\<close> once the sleep is over: the part under the mutex. Where the source goes
  on to call \<^verbatim>\<open>b.end(l)\<close> after unlocking, the batch joins \<open>ending\<close>: \<^verbatim>\<open>fetch\<close> runs
  outside the mutex, so other critical sections may come first.
\<close>

definition startTimer :: "nat \<Rightarrow> DataLoader \<Rightarrow> DataLoader" where
  "startTimer b l =
     (if closing (heap l ! b) then l
      else l\<lparr>batch := None, ending := insert b (ending l)\<rparr>)"

text \<open>\<^verbatim>\<open>b.end(l)\<close>; closing a closed channel panics.\<close>

definition end_batch :: "nat \<Rightarrow> DataLoader \<Rightarrow> DataLoader outcome" where
  "end_batch b l =
     (let (d, e) = fetch l (length (calls l)) (keys (heap l ! b));
          l1 = l\<lparr>heap := (heap l)[b := (heap l ! b)\<lparr>data := d, error := e\<rparr>],
                 calls := calls l @ [(b, keys (heap l ! b))]\<rparr>
      in if done_ch (heap l1 ! b) then Panic CloseOfClosedChannel
         else Ok (l1\<lparr>heap := (heap l1)[b := (heap l1 ! b)\<lparr>done_ch := True\<rparr>]\<rparr>))"

text \<open>
  The closure returned by \<^verbatim>\<open>LoadThunk\<close>, called. The receive \<^verbatim>\<open><-batch.done\<close> returns
  once the channel is closed; until then the call is blocked.
\<close>

definition thunk_error :: "batch \<Rightarrow> nat \<Rightarrow> err outcome" where
  "thunk_error bt pos =
     (if len (error bt) = 1 then index (error bt) 0
      else if error bt \<noteq> None then index (error bt) pos
      else Ok None)"

definition thunk_data :: "batch \<Rightarrow> nat \<Rightarrow> Value" where
  "thunk_data bt pos =
     (case data bt of
        None \<Rightarrow> INil
      | Some xs \<Rightarrow> if pos < length xs then xs ! pos else INil)"

fun call_thunk :: "thunk \<Rightarrow> DataLoader \<Rightarrow> ((Value \<times> err) \<times> DataLoader) outcome" where
  "call_thunk (Cached it) l = Ok ((it, None), l)"
| "call_thunk (Pending b pos key) l =
     (if \<not> done_ch (heap l ! b) then Blocked
      else case thunk_error (heap l ! b) pos of
             Panic p \<Rightarrow> Panic p
           | Blocked \<Rightarrow> Blocked
           | Ok err \<Rightarrow>
               Ok ((thunk_data (heap l ! b) pos, err),
                   if err = None then unsafeSet key (thunk_data (heap l ! b) pos) l else l))"

definition Prime :: "Key \<Rightarrow> Value \<Rightarrow> bool \<Rightarrow> DataLoader \<Rightarrow> bool \<times> DataLoader" where
  "Prime key value forcePrime l =
     (let primeIt = (if \<not> forcePrime then (if cache_get l key = None then True else forcePrime)
                     else forcePrime)
      in (primeIt, if primeIt then unsafeSet key value l else l))"

text \<open>\<^verbatim>\<open>Clear\<close>: \<^verbatim>\<open>delete\<close> on a nil map does nothing.\<close>

definition Clear :: "Key \<Rightarrow> DataLoader \<Rightarrow> DataLoader" where
  "Clear key l = (case cache l of None \<Rightarrow> l | Some m \<Rightarrow> l\<lparr>cache := Some (m(key := None))\<rparr>)"

subsection \<open>Schedules\<close>

text \<open>
  Every access to the loader and its open batch is made under the mutex, so a run of the
  program is a sequence of critical sections and of calls of \<^verbatim>\<open>b.end\<close>, in any order:
  a timer goroutine wakes up, a goroutine runs \<^verbatim>\<open>b.end\<close>, or some caller enters
  \<^verbatim>\<open>LoadThunk\<close>, \<^verbatim>\<open>Prime\<close> or \<^verbatim>\<open>Clear\<close>. A goroutine step happens only if that goroutine
  exists, and it ends the goroutine or moves it on. A thunk that another caller calls
  changes the loader by at most one \<^verbatim>\<open>unsafeSet\<close>, which is what a forced \<^verbatim>\<open>Prime\<close> does.
\<close>

datatype action = Timer nat | End nat | DoLoadThunk Key | DoPrime Key Value bool | DoClear Key

fun step :: "action \<Rightarrow> DataLoader \<Rightarrow> DataLoader outcome" where
  "step (Timer b) l =
     (if b \<in> timers l then Ok (startTimer b (l\<lparr>timers := timers l - {b}\<rparr>)) else Ok l)"
| "step (End b) l =
     (if b \<in> ending l then end_batch b (l\<lparr>ending := ending l - {b}\<rparr>) else Ok l)"
| "step (DoLoadThunk key) l = Ok (snd (LoadThunk key l))"
| "step (DoPrime key value forcePrime) l = Ok (snd (Prime key value forcePrime l))"
| "step (DoClear key) l = Ok (Clear key l)"

fun exec :: "action list \<Rightarrow> DataLoader \<Rightarrow> DataLoader outcome" where
  "exec [] l = Ok l"
| "exec (a # as) l =
     (case step a l of Ok l1 \<Rightarrow> exec as l1 | Panic p \<Rightarrow> Panic p | Blocked \<Rightarrow> Blocked)"

text \<open>The schedule in which, for each of the first \<open>n\<close> batches, the timer wakes up and
  \<^verbatim>\<open>b.end\<close> runs if it is pending.\<close>

definition flush :: "nat \<Rightarrow> action list" where
  "flush n = concat (map (\<lambda>b. [Timer b, End b]) [0..<n])"

subsection \<open>Load and LoadAll of one caller\<close>

text \<open>
  A caller that calls a thunk is blocked in \<^verbatim>\<open><-batch.done\<close> until the goroutines of
  that batch have run: \<open>await\<close> lets the timer of the batch wake up and its
  \<^verbatim>\<open>b.end\<close> run, unless the channel is closed already.
\<close>

fun await :: "thunk \<Rightarrow> DataLoader \<Rightarrow> DataLoader outcome" where
  "await (Cached it) l = Ok l"
| "await (Pending b pos key) l =
     (if done_ch (heap l ! b) then Ok l else exec [Timer b, End b] l)"

text \<open>
  \<^verbatim>\<open>Load\<close> is \<^verbatim>\<open>l.LoadThunk(key)()\<close>. Between the two calls the rest of the program
  runs the schedule \<open>env\<close>.
\<close>

definition Load :: "action list \<Rightarrow> Key \<Rightarrow> DataLoader \<Rightarrow> ((Value \<times> err) \<times> DataLoader) outcome" where
  "Load env key l =
     (let (t, l1) = LoadThunk key l
      in obind (exec env l1) (\<lambda>l2. obind (await t l2) (call_thunk t)))"

text \<open>
  The two loops of \<^verbatim>\<open>LoadAll\<close>. The rest of the program runs the schedule \<open>env i\<close>
  before the \<open>i\<close>-th step of the caller, the steps being numbered through both loops.
\<close>

fun load_thunks ::
  "(nat \<Rightarrow> action list) \<Rightarrow> nat \<Rightarrow> Key list \<Rightarrow> DataLoader \<Rightarrow> (thunk list \<times> DataLoader) outcome" where
  "load_thunks env i [] l = Ok ([], l)"
| "load_thunks env i (key # rest) l =
     obind (exec (env i) l) (\<lambda>l1.
       let (t, l2) = LoadThunk key l1
       in obind (load_thunks env (Suc i) rest l2) (\<lambda>(ts, l3). Ok (t # ts, l3)))"

fun call_thunks ::
  "(nat \<Rightarrow> action list) \<Rightarrow> nat \<Rightarrow> thunk list \<Rightarrow> DataLoader \<Rightarrow>
     ((Value \<times> err) list \<times> DataLoader) outcome" where
  "call_thunks env i [] l = Ok ([], l)"
| "call_thunks env i (t # rest) l =
     obind (exec (env i) l) (\<lambda>l1.
       obind (await t l1) (\<lambda>l2.
         obind (call_thunk t l2) (\<lambda>(r, l3).
           obind (call_thunks env (Suc i) rest l3) (\<lambda>(rs, l4). Ok (r # rs, l4)))))"

definition LoadAll ::
  "(nat \<Rightarrow> action list) \<Rightarrow> Key list \<Rightarrow> DataLoader \<Rightarrow>
     ((Value slice \<times> err slice) \<times> DataLoader) outcome" where
  "LoadAll env keys' l =
     obind (load_thunks env 0 keys' l) (\<lambda>(results, l1).
       obind (call_thunks env (length keys') results l1) (\<lambda>(rs, l2).
         Ok ((Some (map fst rs), Some (map snd rs)), l2)))"

section \<open>AttrDataLoader\<close>

text \<open>A pointer is \<^verbatim>\<open>nil\<close> or points to an object; a \<^verbatim>\<open>func() T\<close> value is \<^verbatim>\<open>nil\<close> or a
  function, given by what it returns. Each initializer builds a loader of its own (as in
  the README), so a loader is kept where its pointer is stored.\<close>

datatype 'a ptr = Null | Ptr 'a

datatype 'a func = NilFunc | Func 'a

text \<open>
  A \<^verbatim>\<open>ValuePropagator\<close> receives the loaded value and the \<^verbatim>\<open>AttrDataLoader\<close>; its
  documented use is to prime the caches of other attributes. It is given by the calls it
  makes on the loader, as a function of the value.
\<close>

datatype cache_call =
    CallPrime Attribute Key Value
  | CallForcePrime Attribute Key Value
  | CallClear Attribute Key

type_synonym ValuePropagator = "Value \<Rightarrow> cache_call list"

text \<open>
  The struct \<^verbatim>\<open>AttrDataLoader\<close>. \<open>init_calls\<close> records every call of an initializer,
  \<open>prop_calls\<close> every call of a propagator with the value it was given.
\<close>

record AttrDataLoader =
  initLoaders :: "Attribute \<rightharpoonup> DataLoader ptr func"
  loaders :: "Attribute \<rightharpoonup> DataLoader ptr"
  propagators :: "Attribute \<rightharpoonup> ValuePropagator func"
  init_calls :: "Attribute list"
  prop_calls :: "(Attribute \<times> Value) list"

text \<open>Both arguments of \<^verbatim>\<open>NewAttrDataLoader\<close> may be nil maps (\<open>None\<close>).\<close>

definition NewAttrDataLoader ::
  "(Attribute \<rightharpoonup> DataLoader ptr func) option \<Rightarrow> (Attribute \<rightharpoonup> ValuePropagator func) option \<Rightarrow>
     AttrDataLoader" where
  "NewAttrDataLoader initLoaders' propagators' =
     \<lparr>initLoaders = (case initLoaders' of None \<Rightarrow> Map.empty | Some m \<Rightarrow> m),
      loaders = Map.empty,
      propagators = (case propagators' of None \<Rightarrow> Map.empty | Some m \<Rightarrow> m),
      init_calls = [], prop_calls = []\<rparr>"

text \<open>The verb \<^verbatim>\<open>%s\<close> of \<^verbatim>\<open>fmt.Sprintf\<close> on a boxed value.\<close>

function dec_nat :: "nat \<Rightarrow> string" where
  "dec_nat n =
     (if n < 10 then [char_of (48 + n)] else dec_nat (n div 10) @ [char_of (48 + n mod 10)])"
  by pat_completeness auto
termination
  by (relation "measure id") auto

definition dec_int :: "int \<Rightarrow> string" where
  "dec_int i = (if i < 0 then ''-'' @ dec_nat (nat (- i)) else dec_nat (nat i))"

fun sprint_s :: "iface \<Rightarrow> string" where
  "sprint_s (IStr s) = s"
| "sprint_s (IInt i) = ''%!s(int='' @ dec_int i @ '')''"
| "sprint_s INil = ''%!s(<nil>)''"

definition NewAttrNotRegError :: "string \<Rightarrow> err" where
  "NewAttrNotRegError msg = Some (AttrNotRegError msg)"

definition attr_msg :: "Attribute \<Rightarrow> string" where
  "attr_msg attribute = ''no dataloader for attribute '' @ [CHR 0x27] @ sprint_s attribute @ [CHR 0x27] @ '' registered''"

text \<open>\<^verbatim>\<open>AttrDataLoader.loader\<close>; calling a nil initializer panics.\<close>

definition Attr_loader :: "Attribute \<Rightarrow> AttrDataLoader \<Rightarrow> (DataLoader ptr \<times> AttrDataLoader) outcome" where
  "Attr_loader attribute l =
     (case loaders l attribute of
        Some loader \<Rightarrow> Ok (loader, l)
      | None \<Rightarrow>
          (case initLoaders l attribute of
             Some loaderInit \<Rightarrow>
               (case loaderInit of
                  NilFunc \<Rightarrow> Panic NilFuncCall
                | Func loader \<Rightarrow>
                    Ok (loader,
                        l\<lparr>init_calls := init_calls l @ [attribute],
                          initLoaders := (initLoaders l)(attribute \<mapsto> NilFunc),
                          loaders := (loaders l)(attribute \<mapsto> loader)\<rparr>))
           | None \<Rightarrow> Ok (Null, l)))"

text \<open>
  \<^verbatim>\<open>AttrDataLoader.prime\<close>. It calls \<^verbatim>\<open>loader.prime(key, value, forcePrime)\<close>, which the
  loader declares as \<^verbatim>\<open>Prime\<close> with these parameters.
\<close>

definition Attr_prime ::
  "Attribute \<Rightarrow> Key \<Rightarrow> Value \<Rightarrow> bool \<Rightarrow> AttrDataLoader \<Rightarrow> (bool \<times> AttrDataLoader) outcome" where
  "Attr_prime attribute key value forcePrime l =
     obind (Attr_loader attribute l) (\<lambda>(loader, l1).
       case loader of
         Ptr d \<Rightarrow>
           (let (r, d') = Prime key value forcePrime d
            in Ok (r, l1\<lparr>loaders := (loaders l1)(attribute \<mapsto> Ptr d')\<rparr>))
       | Null \<Rightarrow> Ok (False, l1))"

definition Attr_Prime ::
  "Attribute \<Rightarrow> Key \<Rightarrow> Value \<Rightarrow> AttrDataLoader \<Rightarrow> (bool \<times> AttrDataLoader) outcome" where
  "Attr_Prime attribute key value l = Attr_prime attribute key value False l"

definition Attr_ForcePrime ::
  "Attribute \<Rightarrow> Key \<Rightarrow> Value \<Rightarrow> AttrDataLoader \<Rightarrow> AttrDataLoader outcome" where
  "Attr_ForcePrime attribute key value l =
     obind (Attr_prime attribute key value True l) (\<lambda>(r, l1). Ok l1)"

definition Attr_Clear :: "Attribute \<Rightarrow> Key \<Rightarrow> AttrDataLoader \<Rightarrow> AttrDataLoader outcome" where
  "Attr_Clear attribute key l =
     obind (Attr_loader attribute l) (\<lambda>(loader, l1).
       case loader of
         Ptr d \<Rightarrow> Ok (l1\<lparr>loaders := (loaders l1)(attribute \<mapsto> Ptr (Clear key d))\<rparr>)
       | Null \<Rightarrow> Ok l1)"

text \<open>The calls a propagator makes, in order.\<close>

fun do_cache_call :: "cache_call \<Rightarrow> AttrDataLoader \<Rightarrow> AttrDataLoader outcome" where
  "do_cache_call (CallPrime attribute key value) l =
     obind (Attr_Prime attribute key value l) (\<lambda>(r, l1). Ok l1)"
| "do_cache_call (CallForcePrime attribute key value) l = Attr_ForcePrime attribute key value l"
| "do_cache_call (CallClear attribute key) l = Attr_Clear attribute key l"

fun do_cache_calls :: "cache_call list \<Rightarrow> AttrDataLoader \<Rightarrow> AttrDataLoader outcome" where
  "do_cache_calls [] l = Ok l"
| "do_cache_calls (c # cs) l = obind (do_cache_call c l) (do_cache_calls cs)"

definition RunPropagator :: "Value \<Rightarrow> Attribute \<Rightarrow> AttrDataLoader \<Rightarrow> AttrDataLoader outcome" where
  "RunPropagator value attribute l =
     (case propagators l attribute of
        Some propagator \<Rightarrow>
          (case propagator of
             NilFunc \<Rightarrow> Panic NilFuncCall
           | Func p \<Rightarrow> do_cache_calls (p value) (l\<lparr>prop_calls := prop_calls l @ [(attribute, value)]\<rparr>))
      | None \<Rightarrow> Ok l)"

text \<open>\<^verbatim>\<open>AttrDataLoader.Load\<close>; \<open>env\<close> is the schedule of the rest of the program while
  the caller is inside \<^verbatim>\<open>loader.Load\<close>.\<close>

definition Attr_Load ::
  "action list \<Rightarrow> Attribute \<Rightarrow> Key \<Rightarrow> AttrDataLoader \<Rightarrow> ((Value \<times> err) \<times> AttrDataLoader) outcome" where
  "Attr_Load env attribute key l =
     obind (Attr_loader attribute l) (\<lambda>(loader, l1).
       case loader of
         Ptr d \<Rightarrow>
           obind (Load env key d) (\<lambda>((value, err), d').
             obind (if err = None
                    then RunPropagator value attribute (l1\<lparr>loaders := (loaders l1)(attribute \<mapsto> Ptr d')\<rparr>)
                    else Ok (l1\<lparr>loaders := (loaders l1)(attribute \<mapsto> Ptr d')\<rparr>))
               (\<lambda>l2. Ok ((value, err), l2)))
       | Null \<Rightarrow> Ok ((INil, NewAttrNotRegError (attr_msg attribute)), l1))"

text \<open>
  The loop \<^verbatim>\<open>for val := range values\<close> of \<^verbatim>\<open>AttrDataLoader.LoadAll\<close>: with one loop
  variable, \<^verbatim>\<open>range\<close> over a slice yields the indices, which are boxed into \<^verbatim>\<open>Value\<close>.
\<close>

fun range_propagate :: "nat list \<Rightarrow> Attribute \<Rightarrow> AttrDataLoader \<Rightarrow> AttrDataLoader outcome" where
  "range_propagate [] attribute l = Ok l"
| "range_propagate (val # rest) attribute l =
     obind (RunPropagator (IInt (int val)) attribute l) (range_propagate rest attribute)"

definition Attr_LoadAll ::
  "(nat \<Rightarrow> action list) \<Rightarrow> Attribute \<Rightarrow> Key list \<Rightarrow> AttrDataLoader \<Rightarrow>
     ((Value slice \<times> err slice) \<times> AttrDataLoader) outcome" where
  "Attr_LoadAll env attribute keys' l =
     obind (Attr_loader attribute l) (\<lambda>(loader, l1).
       case loader of
         Ptr d \<Rightarrow>
           obind (LoadAll env keys' d) (\<lambda>((values, errs), d').
             obind (range_propagate [0..<len values] attribute
                      (l1\<lparr>loaders := (loaders l1)(attribute \<mapsto> Ptr d')\<rparr>))
               (\<lambda>l2. Ok ((values, errs), l2)))
       | Null \<Rightarrow> Ok ((None, Some [NewAttrNotRegError (attr_msg attribute)]), l1))"

section \<open>ObjAttrDataLoader\<close>

record ObjAttrDataLoader =
  obj_initLoaders :: "ObjectType \<rightharpoonup> AttrDataLoader ptr func"
  obj_loaders :: "ObjectType \<rightharpoonup> AttrDataLoader ptr"
  obj_init_calls :: "ObjectType list"

definition NewObjAttrDataLoader ::
  "(ObjectType \<rightharpoonup> AttrDataLoader ptr func) option \<Rightarrow> ObjAttrDataLoader" where
  "NewObjAttrDataLoader initLoaders' =
     \<lparr>obj_initLoaders = (case initLoaders' of None \<Rightarrow> Map.empty | Some m \<Rightarrow> m),
      obj_loaders = Map.empty, obj_init_calls = []\<rparr>"

definition NewObjTypeNotRegError :: "string \<Rightarrow> err" where
  "NewObjTypeNotRegError msg = Some (ObjTypeNotRegError msg)"

definition obj_msg :: "ObjectType \<Rightarrow> string" where
  "obj_msg objectType = ''no dataloader for objectType '' @ [CHR 0x27] @ sprint_s objectType @ [CHR 0x27] @ '' registered''"

definition Obj_loader ::
  "ObjectType \<Rightarrow> ObjAttrDataLoader \<Rightarrow> (AttrDataLoader ptr \<times> ObjAttrDataLoader) outcome" where
  "Obj_loader objectType l =
     (case obj_loaders l objectType of
        Some loader \<Rightarrow> Ok (loader, l)
      | None \<Rightarrow>
          (case obj_initLoaders l objectType of
             Some loaderInit \<Rightarrow>
               (case loaderInit of
                  NilFunc \<Rightarrow> Panic NilFuncCall
                | Func loader \<Rightarrow>
                    Ok (loader,
                        l\<lparr>obj_init_calls := obj_init_calls l @ [objectType],
                          obj_initLoaders := (obj_initLoaders l)(objectType \<mapsto> NilFunc),
                          obj_loaders := (obj_loaders l)(objectType \<mapsto> loader)\<rparr>))
           | None \<Rightarrow> Ok (Null, l)))"

definition Obj_Load ::
  "action list \<Rightarrow> ObjectType \<Rightarrow> Attribute \<Rightarrow> Key \<Rightarrow> ObjAttrDataLoader \<Rightarrow>
     ((Value \<times> err) \<times> ObjAttrDataLoader) outcome" where
  "Obj_Load env objectType attribute key l =
     obind (Obj_loader objectType l) (\<lambda>(loader, l1).
       case loader of
         Ptr a \<Rightarrow>
           obind (Attr_Load env attribute key a) (\<lambda>(r, a').
             Ok (r, l1\<lparr>obj_loaders := (obj_loaders l1)(objectType \<mapsto> Ptr a')\<rparr>))
       | Null \<Rightarrow> Ok ((INil, NewObjTypeNotRegError (obj_msg objectType)), l1))"

definition Obj_LoadAll ::
  "(nat \<Rightarrow> action list) \<Rightarrow> ObjectType \<Rightarrow> Attribute \<Rightarrow> Key list \<Rightarrow> ObjAttrDataLoader \<Rightarrow>
     ((Value slice \<times> err slice) \<times> ObjAttrDataLoader) outcome" where
  "Obj_LoadAll env objectType attribute keys' l =
     obind (Obj_loader objectType l) (\<lambda>(loader, l1).
       case loader of
         Ptr a \<Rightarrow>
           obind (Attr_LoadAll env attribute keys' a) (\<lambda>(r, a').
             Ok (r, l1\<lparr>obj_loaders := (obj_loaders l1)(objectType \<mapsto> Ptr a')\<rparr>))
       | Null \<Rightarrow> Ok ((None, Some [NewObjTypeNotRegError (obj_msg objectType)]), l1))"

definition Obj_prime ::
  "ObjectType \<Rightarrow> Attribute \<Rightarrow> Key \<Rightarrow> Value \<Rightarrow> bool \<Rightarrow> ObjAttrDataLoader \<Rightarrow>
     (bool \<times> ObjAttrDataLoader) outcome" where
  "Obj_prime objectType attribute key value forcePrime l =
     obind (Obj_loader objectType l) (\<lambda>(loader, l1).
       case loader of
         Ptr a \<Rightarrow>
           obind (Attr_prime attribute key value forcePrime a) (\<lambda>(r, a').
             Ok (r, l1\<lparr>obj_loaders := (obj_loaders l1)(objectType \<mapsto> Ptr a')\<rparr>))
       | Null \<Rightarrow> Ok (False, l1))"

definition Obj_Prime ::
  "ObjectType \<Rightarrow> Attribute \<Rightarrow> Key \<Rightarrow> Value \<Rightarrow> ObjAttrDataLoader \<Rightarrow>
     (bool \<times> ObjAttrDataLoader) outcome" where
  "Obj_Prime objectType attribute key value l = Obj_prime objectType attribute key value False l"

definition Obj_ForcePrime ::
  "ObjectType \<Rightarrow> Attribute \<Rightarrow> Key \<Rightarrow> Value \<Rightarrow> ObjAttrDataLoader \<Rightarrow>
     (bool \<times> ObjAttrDataLoader) outcome" where
  "Obj_ForcePrime objectType attribute key value l = Obj_prime objectType attribute key value True l"

definition Obj_Clear ::
  "ObjectType \<Rightarrow> Attribute \<Rightarrow> Key \<Rightarrow> ObjAttrDataLoader \<Rightarrow> ObjAttrDataLoader outcome" where
  "Obj_Clear objectType attribute key l =
     obind (Obj_loader objectType l) (\<lambda>(loader, l1).
       case loader of
         Ptr a \<Rightarrow>
           obind (Attr_Clear attribute key a) (\<lambda>a'.
             Ok (l1\<lparr>obj_loaders := (obj_loaders l1)(objectType \<mapsto> Ptr a')\<rparr>))
       | Null \<Rightarrow> Ok l1)"

subsection \<open>Sequences of calls\<close>

text \<open>The public calls on an \<^verbatim>\<open>AttrDataLoader\<close> and on an \<^verbatim>\<open>ObjAttrDataLoader\<close>, each
  with the schedule of the rest of the program where it waits for a batch; a lifetime is
  a list of calls.\<close>

datatype attr_call =
    ALoad "action list" Attribute Key
  | ALoadAll "nat \<Rightarrow> action list" Attribute "Key list"
  | APrime Attribute Key Value
  | AForcePrime Attribute Key Value
  | AClear Attribute Key

fun do_attr_call :: "attr_call \<Rightarrow> AttrDataLoader \<Rightarrow> AttrDataLoader outcome" where
  "do_attr_call (ALoad env attribute key) l =
     obind (Attr_Load env attribute key l) (\<lambda>(r, l1). Ok l1)"
| "do_attr_call (ALoadAll env attribute keys') l =
     obind (Attr_LoadAll env attribute keys' l) (\<lambda>(r, l1). Ok l1)"
| "do_attr_call (APrime attribute key value) l =
     obind (Attr_Prime attribute key value l) (\<lambda>(r, l1). Ok l1)"
| "do_attr_call (AForcePrime attribute key value) l = Attr_ForcePrime attribute key value l"
| "do_attr_call (AClear attribute key) l = Attr_Clear attribute key l"

fun do_attr_calls :: "attr_call list \<Rightarrow> AttrDataLoader \<Rightarrow> AttrDataLoader outcome" where
  "do_attr_calls [] l = Ok l"
| "do_attr_calls (c # cs) l = obind (do_attr_call c l) (do_attr_calls cs)"

datatype obj_call =
    OLoad "action list" ObjectType Attribute Key
  | OLoadAll "nat \<Rightarrow> action list" ObjectType Attribute "Key list"
  | OPrime ObjectType Attribute Key Value
  | OForcePrime ObjectType Attribute Key Value
  | OClear ObjectType Attribute Key

fun do_obj_call :: "obj_call \<Rightarrow> ObjAttrDataLoader \<Rightarrow> ObjAttrDataLoader outcome" where
  "do_obj_call (OLoad env objectType attribute key) l =
     obind (Obj_Load env objectType attribute key l) (\<lambda>(r, l1). Ok l1)"
| "do_obj_call (OLoadAll env objectType attribute keys') l =
     obind (Obj_LoadAll env objectType attribute keys' l) (\<lambda>(r, l1). Ok l1)"
| "do_obj_call (OPrime objectType attribute key value) l =
     obind (Obj_Prime objectType attribute key value l) (\<lambda>(r, l1). Ok l1)"
| "do_obj_call (OForcePrime objectType attribute key value) l =
     obind (Obj_ForcePrime objectType attribute key value l) (\<lambda>(r, l1). Ok l1)"
| "do_obj_call (OClear objectType attribute key) l = Obj_Clear objectType attribute key l"

fun do_obj_calls :: "obj_call list \<Rightarrow> ObjAttrDataLoader \<Rightarrow> ObjAttrDataLoader outcome" where
  "do_obj_calls [] l = Ok l"
| "do_obj_calls (c # cs) l = obind (do_obj_call c l) (do_obj_calls cs)"

section \<open>Invariants of the loader\<close>

text \<open>The calls of \<^verbatim>\<open>fetch\<close> made for the batch at address \<open>b\<close>.\<close>

definition calls_of :: "nat \<Rightarrow> DataLoader \<Rightarrow> (nat \<times> Key list) list" where
  "calls_of b l = filter (\<lambda>c. fst c = b) (calls l)"

text \<open>
  A batch is in one of three phases. Open: it is the loader's current batch, its timer is
  asleep and nothing has been fetched. Detached: it is in \<open>ending\<close>, no longer current, and
  its timer, if still there, will find \<^verbatim>\<open>closing\<close> set. Finalized: \<^verbatim>\<open>done\<close> is closed
  and \<^verbatim>\<open>fetch\<close> has been called once, on its keys.
\<close>

definition batch_ok :: "DataLoader \<Rightarrow> nat \<Rightarrow> bool" where
  "batch_ok l b =
     (keys (heap l ! b) \<noteq> [] \<and> distinct (keys (heap l ! b)) \<and>
      (if done_ch (heap l ! b)
       then batch l \<noteq> Some b \<and> b \<notin> ending l \<and> (b \<in> timers l \<longrightarrow> closing (heap l ! b)) \<and>
            calls_of b l = [(b, keys (heap l ! b))]
       else calls_of b l = [] \<and>
            (if b \<in> ending l
             then batch l \<noteq> Some b \<and> (b \<in> timers l \<longrightarrow> closing (heap l ! b))
             else batch l = Some b \<and> b \<in> timers l \<and> \<not> closing (heap l ! b))))"

definition bounds_ok :: "DataLoader \<Rightarrow> bool" where
  "bounds_ok l =
     ((\<forall>b. batch l = Some b \<longrightarrow> b < length (heap l)) \<and>
      (\<forall>b\<in>timers l. b < length (heap l)) \<and>
      (\<forall>b\<in>ending l. b < length (heap l)) \<and>
      (\<forall>c\<in>set (calls l). fst c < length (heap l)))"

definition loader_ok :: "DataLoader \<Rightarrow> bool" where
  "loader_ok l = ((\<forall>b<length (heap l). batch_ok l b) \<and> bounds_ok l)"

text \<open>
  What a finalized batch holds is what the fetcher returned for it: some recorded call,
  the \<open>n\<close>-th one, was made for this batch on its keys, and the batch's \<^verbatim>\<open>data\<close> and
  \<^verbatim>\<open>error\<close> are the result of the fetcher at that call.
\<close>

definition fetched_ok :: "DataLoader \<Rightarrow> bool" where
  "fetched_ok l = (\<forall>b<length (heap l). done_ch (heap l ! b) \<longrightarrow>
     (\<exists>n<length (calls l). calls l ! n = (b, keys (heap l ! b)) \<and>
        (data (heap l ! b), error (heap l ! b)) = fetch l n (keys (heap l ! b))))"

text \<open>The size test of \<^verbatim>\<open>keyIndex\<close> for the batch at \<open>b\<close>.\<close>

definition cap :: "DataLoader \<Rightarrow> nat \<Rightarrow> bool" where
  "cap l b = (maxBatch l \<noteq> 0 \<and> sint (maxBatch l - 1) \<le> int (length (keys (heap l ! b))))"

text \<open>Finalized batches are never written again, and batches are never freed.\<close>

definition done_stable :: "DataLoader \<Rightarrow> DataLoader \<Rightarrow> bool" where
  "done_stable l l' = (length (heap l) \<le> length (heap l') \<and>
     (\<forall>b<length (heap l). done_ch (heap l ! b) \<longrightarrow> heap l' ! b = heap l ! b))"

text \<open>
  What the thunk needs of the errors a fetcher returns for \<open>n\<close> keys: the slice is nil,
  or it holds one error (shared by all keys), or it holds an error slot for every key.
  Any other slice makes \<^verbatim>\<open>batch.error[pos]\<close> panic for some position.
\<close>

definition errs_ok :: "nat \<Rightarrow> err slice \<Rightarrow> bool" where
  "errs_ok n e = (e = None \<or> len e = 1 \<or> n \<le> len e)"

definition fetch_ok :: "Fetcher \<Rightarrow> bool" where
  "fetch_ok f = (\<forall>n ks. errs_ok (length ks) (snd (f n ks)))"

definition errors_ok :: "DataLoader \<Rightarrow> bool" where
  "errors_ok l = (\<forall>b<length (heap l). done_ch (heap l ! b) \<longrightarrow>
      errs_ok (length (keys (heap l ! b))) (error (heap l ! b)))"

text \<open>The states that a loader built by \<^verbatim>\<open>NewDataLoader\<close> around such a fetcher reaches.\<close>

definition good :: "DataLoader \<Rightarrow> bool" where
  "good l = (loader_ok l \<and> fetch_ok (fetch l) \<and> errors_ok l)"

text \<open>From \<open>l\<close> to \<open>l'\<close> batches are only added, key lists only grow at the end, finalized
  batches stay as they are, and the fetcher is the same.\<close>

definition extends :: "DataLoader \<Rightarrow> DataLoader \<Rightarrow> bool" where
  "extends l l' = (done_stable l l' \<and> fetch l' = fetch l \<and>
     (\<forall>b<length (heap l). \<exists>ys. keys (heap l' ! b) = keys (heap l ! b) @ ys))"

text \<open>A thunk is for a key: it holds a cached value, or a position of a batch where that
  key is.\<close>

fun thunk_for :: "DataLoader \<Rightarrow> thunk \<Rightarrow> Key \<Rightarrow> bool" where
  "thunk_for l (Cached it) key = True"
| "thunk_for l (Pending b pos k) key =
     (k = key \<and> b < length (heap l) \<and> pos < length (keys (heap l ! b)) \<and> keys (heap l ! b) ! pos = key)"

text \<open>What a call returns to its caller, without the state it leaves.\<close>

definition returned :: "('a \<times> 's) outcome \<Rightarrow> 'a outcome" where
  "returned x = obind x (\<lambda>(r, s). Ok r)"

text \<open>
  Each loader in the loaders map has had its initializer run once and its slot in
  \<^verbatim>\<open>initLoaders\<close> set to nil; no other initializer has run.
\<close>

definition inits_ok :: "AttrDataLoader \<Rightarrow> bool" where
  "inits_ok l = (\<forall>a. (loaders l a \<noteq> None \<longrightarrow> initLoaders l a = Some NilFunc) \<and>
       count_list (init_calls l) a = (if loaders l a = None then 0 else 1))"

definition obj_inits_ok :: "ObjAttrDataLoader \<Rightarrow> bool" where
  "obj_inits_ok l = (\<forall>t. (obj_loaders l t \<noteq> None \<longrightarrow> obj_initLoaders l t = Some NilFunc) \<and>
       count_list (obj_init_calls l) t = (if obj_loaders l t = None then 0 else 1))"

section \<open>Example fetchers\<close>

text \<open>A fetcher that returns each key as its value and no errors.\<close>

definition echo :: Fetcher where
  "echo n ks = (Some ks, None)"

text \<open>A fetcher that finds every key but \<^verbatim>\<open>"bad"\<close>, with one error slot for each key.\<close>

definition picky :: Fetcher where
  "picky n ks =
     (Some ks,
      Some (map (\<lambda>k. if k = IStr ''bad'' then Some (OtherError ''no such key'') else None) ks))"

text \<open>An \<^verbatim>\<open>AttrDataLoader\<close> with the one attribute \<^verbatim>\<open>"id"\<close> and a propagator for it that
  makes no calls.\<close>

definition accounts :: AttrDataLoader where
  "accounts = NewAttrDataLoader
     (Some [IStr ''id'' \<mapsto> Func (Ptr (NewDataLoader 100 1 picky))])
     (Some [IStr ''id'' \<mapsto> Func (\<lambda>v. [])])"

text \<open>An \<^verbatim>\<open>ObjAttrDataLoader\<close> with the one object type \<^verbatim>\<open>"account"\<close>.\<close>

definition shop :: ObjAttrDataLoader where
  "shop = NewObjAttrDataLoader (Some [IStr ''account'' \<mapsto> Func (Ptr accounts)])"

text \<open>A fetcher that returns each key as its value and an empty, non-nil slice of errors.\<close>

definition empty_errors :: Fetcher where
  "empty_errors n ks = (Some ks, Some [])"

text \<open>A fetcher whose first call finds every key and whose later calls fail with one
  shared error.\<close>

definition flaky :: Fetcher where
  "flaky n ks =
     (if n = 0 then (Some (map (\<lambda>k. IStr ''row'') ks), None)
      else (None, Some [Some (OtherError ''backend down'')]))"

section \<open>Properties of DataLoader\<close>

lemma scan_None: "scan key ks = None \<longleftrightarrow> key \<notin> set ks"
  by (induction ks) auto

lemma scan_Some: "scan key ks = Some i \<Longrightarrow> i < length ks \<and> ks ! i = key"
  by (induction ks arbitrary: i) (auto split: if_splits)

lemma loader_ok_New: "loader_ok (NewDataLoader m w f)"
  by (simp add: loader_ok_def bounds_ok_def NewDataLoader_def)

lemma unsafeSet_fields [simp]:
  "heap (unsafeSet k v l) = heap l" "batch (unsafeSet k v l) = batch l"
  "timers (unsafeSet k v l) = timers l" "ending (unsafeSet k v l) = ending l"
  "calls (unsafeSet k v l) = calls l" "fetch (unsafeSet k v l) = fetch l"
  "maxBatch (unsafeSet k v l) = maxBatch l"
  by (auto simp: unsafeSet_def Let_def split: option.splits)

lemma loader_ok_cache: 
  "heap l' = heap l \<Longrightarrow> batch l' = batch l \<Longrightarrow> timers l' = timers l \<Longrightarrow> ending l' = ending l \<Longrightarrow>
   calls l' = calls l \<Longrightarrow> loader_ok l' = loader_ok l"
  by (simp add: loader_ok_def bounds_ok_def batch_ok_def calls_of_def)

lemma loader_ok_unsafeSet [simp]: "loader_ok (unsafeSet k v l) = loader_ok l"
  by (rule loader_ok_cache) simp_all

lemma Clear_fields [simp]:
  "heap (Clear k l) = heap l" "batch (Clear k l) = batch l"
  "timers (Clear k l) = timers l" "ending (Clear k l) = ending l"
  "calls (Clear k l) = calls l" "fetch (Clear k l) = fetch l"
  "maxBatch (Clear k l) = maxBatch l"
  by (auto simp: Clear_def split: option.splits)

lemma Prime_fields [simp]:
  "heap (snd (Prime k v f l)) = heap l" "batch (snd (Prime k v f l)) = batch l"
  "timers (snd (Prime k v f l)) = timers l" "ending (snd (Prime k v f l)) = ending l"
  "calls (snd (Prime k v f l)) = calls l" "fetch (snd (Prime k v f l)) = fetch l"
  "maxBatch (snd (Prime k v f l)) = maxBatch l"
  by (auto simp: Prime_def Let_def)

lemma loader_ok_Prime: "loader_ok (snd (Prime k v f l)) = loader_ok l"
  by (rule loader_ok_cache) simp_all

lemma loader_ok_Clear: "loader_ok (Clear k l) = loader_ok l"
  by (rule loader_ok_cache) simp_all

lemma batch_ok_cong:
  "heap l' ! b = heap l ! b \<Longrightarrow> (batch l' = Some b) = (batch l = Some b) \<Longrightarrow>
   (b \<in> timers l') = (b \<in> timers l) \<Longrightarrow> (b \<in> ending l') = (b \<in> ending l) \<Longrightarrow>
   calls_of b l' = calls_of b l \<Longrightarrow> batch_ok l' b = batch_ok l b"
  by (simp add: batch_ok_def)

lemma keyIndex_found:
  "scan key (keys (heap l ! b)) = Some i \<Longrightarrow> keyIndex b key l = (i, l)"
  by (simp add: keyIndex_def)

lemma keyIndex_new:
  assumes "scan key (keys (heap l ! b)) = None" "b < length (heap l)"
  shows "fst (keyIndex b key l) = length (keys (heap l ! b))"
    and "length (heap (snd (keyIndex b key l))) = length (heap l)"
    and "b' \<noteq> b \<Longrightarrow> heap (snd (keyIndex b key l)) ! b' = heap l ! b'"
    and "keys (heap (snd (keyIndex b key l)) ! b) = keys (heap l ! b) @ [key]"
    and "closing (heap (snd (keyIndex b key l)) ! b) = (closing (heap l ! b) \<or> cap l b)"
    and "done_ch (heap (snd (keyIndex b key l)) ! b) = done_ch (heap l ! b)"
    and "data (heap (snd (keyIndex b key l)) ! b) = data (heap l ! b)"
    and "error (heap (snd (keyIndex b key l)) ! b) = error (heap l ! b)"
    and "timers (snd (keyIndex b key l)) =
          (if keys (heap l ! b) = [] then insert b (timers l) else timers l)"
    and "batch (snd (keyIndex b key l)) =
          (if cap l b \<and> \<not> closing (heap l ! b) then None else batch l)"
    and "ending (snd (keyIndex b key l)) =
          (if cap l b \<and> \<not> closing (heap l ! b) then insert b (ending l) else ending l)"
    and "calls (snd (keyIndex b key l)) = calls l"
    and "cache (snd (keyIndex b key l)) = cache l"
    and "fetch (snd (keyIndex b key l)) = fetch l"
    and "maxBatch (snd (keyIndex b key l)) = maxBatch l"
  using assms by (simp_all add: keyIndex_def Let_def cap_def)

lemma batch_ok_open:
  "batch_ok l b \<Longrightarrow> batch l = Some b \<Longrightarrow>
     \<not> done_ch (heap l ! b) \<and> b \<notin> ending l \<and> b \<in> timers l \<and> \<not> closing (heap l ! b) \<and>
     calls_of b l = [] \<and> keys (heap l ! b) \<noteq> [] \<and> distinct (keys (heap l ! b))"
  by (auto simp: batch_ok_def split: if_splits)

lemma keyIndex_ok_b:
  assumes "batch_ok l b \<or> (keys (heap l ! b) = [] \<and> \<not> done_ch (heap l ! b) \<and> \<not> closing (heap l ! b)
             \<and> b \<notin> ending l \<and> calls_of b l = [])" 
    "batch l = Some b" "b < length (heap l)"
  shows "batch_ok (snd (keyIndex b key l)) b"
proof (cases "scan key (keys (heap l ! b))")
  case (Some i)
  then have "keys (heap l ! b) \<noteq> []" by auto
  then show ?thesis using assms Some by (simp add: keyIndex_found)
next
  case None
  have nk: "key \<notin> set (keys (heap l ! b))" using None by (simp add: scan_None)
  note kn = keyIndex_new [OF None assms(3)]
  from assms(1) show ?thesis
  proof
    assume "batch_ok l b"
    from batch_ok_open [OF this assms(2)] show ?thesis using nk assms(2)
      by (simp add: batch_ok_def kn calls_of_def)
  next
    assume "keys (heap l ! b) = [] \<and> \<not> done_ch (heap l ! b) \<and> \<not> closing (heap l ! b)
             \<and> b \<notin> ending l \<and> calls_of b l = []"
    then show ?thesis using assms(2)
      by (simp add: batch_ok_def kn calls_of_def)
  qed
qed

lemma keyIndex_ok_other:
  assumes "batch l = Some b" "b < length (heap l)" "b' \<noteq> b"
  shows "batch_ok (snd (keyIndex b key l)) b' = batch_ok l b'"
proof (cases "scan key (keys (heap l ! b))")
  case (Some i)
  then show ?thesis by (simp add: keyIndex_found)
next
  case None
  note kn = keyIndex_new [OF None assms(2)]
  show ?thesis using assms
    by (intro batch_ok_cong) (auto simp add: kn calls_of_def)
qed

lemma keyIndex_bounds:
  assumes "bounds_ok l" "b < length (heap l)"
  shows "bounds_ok (snd (keyIndex b key l))"
proof (cases "scan key (keys (heap l ! b))")
  case (Some i)
  then show ?thesis using assms by (simp add: keyIndex_found)
next
  case None
  note kn = keyIndex_new [OF None assms(2)]
  show ?thesis using assms by (simp add: bounds_ok_def kn)
qed

lemma keyIndex_length: "length (heap (snd (keyIndex b key l))) = length (heap l)"
  by (simp add: keyIndex_def Let_def split: option.splits)

lemma keyIndex_loader_ok:
  assumes "\<forall>b'<length (heap l). b' \<noteq> b \<longrightarrow> batch_ok l b'"
    and "batch_ok l b \<or> (keys (heap l ! b) = [] \<and> \<not> done_ch (heap l ! b) \<and> \<not> closing (heap l ! b)
             \<and> b \<notin> ending l \<and> calls_of b l = [])"
    and "batch l = Some b" "bounds_ok l"
  shows "loader_ok (snd (keyIndex b key l))"
proof -
  have b: "b < length (heap l)" using assms(3,4) by (simp add: bounds_ok_def)
  have "batch_ok (snd (keyIndex b key l)) b'" if "b' < length (heap l)" for b'
  proof (cases "b' = b")
    case True
    then show ?thesis using keyIndex_ok_b [OF assms(2) assms(3) b] by simp
  next
    case False
    then show ?thesis using keyIndex_ok_other [OF assms(3) b False] assms(1) that by simp
  qed
  then show ?thesis using keyIndex_bounds [OF assms(4) b]
    by (simp add: loader_ok_def keyIndex_length)
qed

lemma LoadThunk_ok:
  assumes "loader_ok l"
  shows "loader_ok (snd (LoadThunk key l))"
proof (cases "cache_get l key")
  case (Some it)
  then show ?thesis using assms by (simp add: LoadThunk_def)
next
  case None
  show ?thesis
  proof (cases "batch l")
    case (Some b)
    have "loader_ok (snd (keyIndex b key l))"
      using assms Some by (intro keyIndex_loader_ok) (auto simp: loader_ok_def bounds_ok_def)
    then show ?thesis using None Some by (simp add: LoadThunk_def case_prod_beta)
  next
    case nb: None
    define n where "n = length (heap l)"
    define l1 where "l1 = l\<lparr>heap := heap l @ [new_batch], batch := Some n\<rparr>"
    have bo: "bounds_ok l" using assms by (simp add: loader_ok_def)
    have "batch_ok l1 b' = batch_ok l b'" if "b' < n" for b'
      using that nb by (intro batch_ok_cong) (simp_all add: l1_def n_def nth_append calls_of_def)
    then have 1: "\<forall>b'<length (heap l1). b' \<noteq> n \<longrightarrow> batch_ok l1 b'"
      using assms by (simp add: loader_ok_def l1_def n_def less_Suc_eq)
    have "n \<notin> ending l" using bo by (auto simp: bounds_ok_def n_def)
    moreover have "calls_of n l = []" using bo by (auto simp: bounds_ok_def n_def calls_of_def filter_empty_conv)
    ultimately have 2: "keys (heap l1 ! n) = [] \<and> \<not> done_ch (heap l1 ! n) \<and> \<not> closing (heap l1 ! n)
             \<and> n \<notin> ending l1 \<and> calls_of n l1 = []"
      by (simp add: l1_def n_def new_batch_def calls_of_def)
    have 3: "bounds_ok l1" using bo by (auto simp: bounds_ok_def l1_def n_def less_Suc_eq)
    have "loader_ok (snd (keyIndex n key l1))"
      using 1 2 3 by (intro keyIndex_loader_ok) (simp_all add: l1_def)
    then show ?thesis using None nb by (simp add: LoadThunk_def l1_def n_def Let_def case_prod_beta)
  qed
qed

lemma Timer_ok:
  assumes "loader_ok l"
  shows "\<exists>l'. step (Timer b) l = Ok l' \<and> loader_ok l' \<and> heap l' = heap l \<and> calls l' = calls l
         \<and> (b < length (heap l) \<and> \<not> done_ch (heap l ! b) \<longrightarrow> b \<in> ending l')"
proof (cases "b \<in> timers l")
  case False
  then have "b < length (heap l) \<Longrightarrow> \<not> done_ch (heap l ! b) \<Longrightarrow> b \<in> ending l"
    using assms by (auto simp: loader_ok_def batch_ok_def split: if_splits)
  then show ?thesis using assms False by auto
next
  case True
  then have b: "b < length (heap l)" and ok: "batch_ok l b" using assms by (auto simp: loader_ok_def bounds_ok_def)
  define l' where "l' = startTimer b (l\<lparr>timers := timers l - {b}\<rparr>)"
  show ?thesis
  proof (cases "closing (heap l ! b)")
    case c: True
    then have l': "l' = l\<lparr>timers := timers l - {b}\<rparr>" by (simp add: l'_def startTimer_def)
    have "batch_ok l' b' = batch_ok l b'" if "b' < length (heap l)" "b' \<noteq> b" for b'
      using that by (intro batch_ok_cong) (simp_all add: l' calls_of_def)
    moreover have "batch_ok l' b" using ok c True by (auto simp: batch_ok_def l' calls_of_def split: if_splits)
    moreover have "bounds_ok l'" using assms by (auto simp: loader_ok_def bounds_ok_def l')
    moreover have "\<not> done_ch (heap l ! b) \<Longrightarrow> b \<in> ending l'" using ok c True by (auto simp: batch_ok_def l' split: if_splits)
    ultimately have "loader_ok l' \<and> heap l' = heap l \<and> calls l' = calls l \<and> (\<not> done_ch (heap l ! b) \<longrightarrow> b \<in> ending l')"
      using assms by (auto simp: loader_ok_def l')
    then show ?thesis using True by (simp add: l'_def)
  next
    case c: False
    then have l': "l' = l\<lparr>timers := timers l - {b}, batch := None, ending := insert b (ending l)\<rparr>" by (simp add: l'_def startTimer_def)
    have cur: "batch l = Some b \<and> \<not> done_ch (heap l ! b)" using ok c True by (auto simp: batch_ok_def split: if_splits)
    have "batch_ok l' b' = batch_ok l b'" if "b' < length (heap l)" "b' \<noteq> b" for b'
      using that cur by (intro batch_ok_cong) (auto simp add: l' calls_of_def)
    moreover have "batch_ok l' b" using ok c True by (auto simp: batch_ok_def l' calls_of_def split: if_splits)
    moreover have "bounds_ok l'" using assms b by (auto simp: loader_ok_def bounds_ok_def l')
    ultimately have "loader_ok l' \<and> heap l' = heap l \<and> calls l' = calls l \<and> b \<in> ending l'"
      using assms by (auto simp: loader_ok_def l')
    then show ?thesis using True by (simp add: l'_def)
  qed
qed

lemma end_batch_fields:
  assumes "b < length (heap l)" "\<not> done_ch (heap l ! b)"
  shows "\<exists>l'. end_batch b l = Ok l' \<and>
     length (heap l') = length (heap l) \<and>
     (\<forall>b'. b' \<noteq> b \<longrightarrow> heap l' ! b' = heap l ! b') \<and>
     keys (heap l' ! b) = keys (heap l ! b) \<and> closing (heap l' ! b) = closing (heap l ! b) \<and>
     done_ch (heap l' ! b) \<and>
     data (heap l' ! b) = fst (fetch l (length (calls l)) (keys (heap l ! b))) \<and>
     error (heap l' ! b) = snd (fetch l (length (calls l)) (keys (heap l ! b))) \<and>
     calls l' = calls l @ [(b, keys (heap l ! b))] \<and>
     batch l' = batch l \<and> timers l' = timers l \<and> ending l' = ending l \<and> cache l' = cache l \<and>
     fetch l' = fetch l \<and> maxBatch l' = maxBatch l"
  using assms by (simp add: end_batch_def Let_def case_prod_beta)

lemma End_ok:
  assumes "loader_ok l"
  shows "\<exists>l'. step (End b) l = Ok l' \<and> loader_ok l' \<and> length (heap l') = length (heap l) \<and>
     (\<forall>b'. keys (heap l' ! b') = keys (heap l ! b')) \<and>
     (\<forall>b'. done_ch (heap l ! b') \<longrightarrow> heap l' ! b' = heap l ! b') \<and>
     (b \<in> ending l \<longrightarrow> done_ch (heap l' ! b))"
proof (cases "b \<in> ending l")
  case False
  then show ?thesis using assms by simp
next
  case True
  then have b: "b < length (heap l)" and ok: "batch_ok l b"
    using assms by (auto simp: loader_ok_def bounds_ok_def)
  have nd: "\<not> done_ch (heap l ! b)" using ok True by (auto simp: batch_ok_def split: if_splits)
  define l0 where "l0 = l\<lparr>ending := ending l - {b}\<rparr>"
  have "b < length (heap l0)" "\<not> done_ch (heap l0 ! b)" using b nd by (simp_all add: l0_def)
  from end_batch_fields [OF this] obtain l' where l':
    "end_batch b l0 = Ok l'" "length (heap l') = length (heap l)"
    "\<And>b'. b' \<noteq> b \<Longrightarrow> heap l' ! b' = heap l ! b'"
    "keys (heap l' ! b) = keys (heap l ! b)" "closing (heap l' ! b) = closing (heap l ! b)"
    "done_ch (heap l' ! b)" "calls l' = calls l @ [(b, keys (heap l ! b))]"
    "batch l' = batch l" "timers l' = timers l" "ending l' = ending l - {b}"
    by (auto simp: l0_def)
  have oth: "batch_ok l' b' = batch_ok l b'" if "b' \<noteq> b" for b'
    using that l' by (intro batch_ok_cong) (auto simp add: calls_of_def)
  have self: "batch_ok l' b" using ok True nd l' by (auto simp: batch_ok_def calls_of_def split: if_splits)
  have "batch_ok l' b'" if "b' < length (heap l)" for b'
    using that oth self assms by (cases "b' = b") (simp_all add: loader_ok_def)
  moreover have "bounds_ok l'" using assms b l' by (auto simp: loader_ok_def bounds_ok_def)
  ultimately have "loader_ok l'" using l'(2) by (simp add: loader_ok_def)
  moreover have "keys (heap l' ! b') = keys (heap l ! b')" for b' using l' by (cases "b' = b") auto
  moreover have "done_ch (heap l ! b') \<Longrightarrow> heap l' ! b' = heap l ! b'" for b' using l' nd by (cases "b' = b") auto
  ultimately show ?thesis using True l' by (auto simp: l0_def)
qed

lemma LoadThunk_stable:
  assumes "loader_ok l"
  shows "length (heap l) \<le> length (heap (snd (LoadThunk key l)))"
    and "b' < length (heap l) \<Longrightarrow> done_ch (heap l ! b') \<Longrightarrow> heap (snd (LoadThunk key l)) ! b' = heap l ! b'"
proof -
  have A: "length (heap l) \<le> length (heap (snd (LoadThunk key l))) \<and>
     (b' < length (heap l) \<longrightarrow> done_ch (heap l ! b') \<longrightarrow> heap (snd (LoadThunk key l)) ! b' = heap l ! b')" for b'
  proof (cases "cache_get l key")
    case (Some it)
    then show ?thesis by (simp add: LoadThunk_def)
  next
    case None
    show ?thesis
    proof (cases "batch l")
      case (Some b)
      then have b: "b < length (heap l)" and ok: "batch_ok l b" using assms by (auto simp: loader_ok_def bounds_ok_def)
      have nd: "\<not> done_ch (heap l ! b)" using batch_ok_open [OF ok Some] by simp
      have "heap (snd (keyIndex b key l)) ! b' = heap l ! b'" if "b' \<noteq> b"
        using that b by (cases "scan key (keys (heap l ! b))") (simp_all add: keyIndex_found keyIndex_new)
      then show ?thesis using None Some nd by (auto simp add: LoadThunk_def case_prod_beta keyIndex_length)
    next
      case nb: None
      define n where "n = length (heap l)"
      define l1 where "l1 = l\<lparr>heap := heap l @ [new_batch], batch := Some n\<rparr>"
      have n: "n < length (heap l1)" by (simp add: l1_def n_def)
      have "heap (snd (keyIndex n key l1)) ! b' = heap l1 ! b'" if "b' \<noteq> n"
        using that n by (cases "scan key (keys (heap l1 ! n))") (simp_all add: keyIndex_found keyIndex_new)
      then have "b' < n \<Longrightarrow> heap (snd (keyIndex n key l1)) ! b' = heap l ! b'"
        by (simp add: l1_def n_def nth_append)
      moreover have "snd (LoadThunk key l) = snd (keyIndex n key l1)"
        using None nb by (simp add: LoadThunk_def l1_def n_def Let_def case_prod_beta)
      ultimately show ?thesis by (simp add: keyIndex_length) (simp add: l1_def n_def)
    qed
  qed
  from A show "length (heap l) \<le> length (heap (snd (LoadThunk key l)))" by simp
  from A show "b' < length (heap l) \<Longrightarrow> done_ch (heap l ! b') \<Longrightarrow> heap (snd (LoadThunk key l)) ! b' = heap l ! b'" by simp
qed

lemma done_stable_refl: "done_stable l l"
  by (simp add: done_stable_def)

lemma done_stable_trans: "done_stable l l1 \<Longrightarrow> done_stable l1 l2 \<Longrightarrow> done_stable l l2"
  by (auto simp: done_stable_def)

lemma step_ok:
  assumes "loader_ok l"
  shows "\<exists>l'. step a l = Ok l' \<and> loader_ok l' \<and> done_stable l l'"
proof (cases a)
  case (Timer b)
  then show ?thesis using Timer_ok [OF assms, of b] by (auto simp: done_stable_def)
next
  case (End b)
  then show ?thesis using End_ok [OF assms, of b] by (auto simp: done_stable_def)
next
  case (DoLoadThunk key)
  then show ?thesis using LoadThunk_ok [OF assms, of key] LoadThunk_stable [OF assms, where key=key]
    by (simp add: done_stable_def)
next
  case (DoPrime key v f)
  then show ?thesis using assms by (simp add: loader_ok_Prime done_stable_def)
next
  case (DoClear key)
  then show ?thesis using assms by (simp add: loader_ok_Clear done_stable_def)
qed

lemma exec_ok:
  assumes "loader_ok l"
  shows "\<exists>l'. exec as l = Ok l' \<and> loader_ok l' \<and> done_stable l l'"
  using assms
proof (induction as arbitrary: l)
  case Nil
  then show ?case by (simp add: done_stable_refl)
next
  case (Cons a as)
  from step_ok [OF Cons.prems, of a] obtain l1 where 1: "step a l = Ok l1" "loader_ok l1" "done_stable l l1" by blast
  from Cons.IH [OF 1(2)] obtain l2 where 2: "exec as l1 = Ok l2" "loader_ok l2" "done_stable l1 l2" by blast
  show ?case using 1 2 done_stable_trans by auto
qed

lemma exec_append: "exec (as @ bs) l = obind (exec as l) (exec bs)"
  by (induction as arbitrary: l) (auto simp: obind_def split: outcome.splits)

lemma flush_one:
  assumes "loader_ok l" "b < length (heap l)"
  shows "\<exists>l'. exec [Timer b, End b] l = Ok l' \<and> loader_ok l' \<and> done_stable l l' \<and>
     length (heap l') = length (heap l) \<and> (\<forall>b'. keys (heap l' ! b') = keys (heap l ! b')) \<and>
     done_ch (heap l' ! b)"
proof -
  from Timer_ok [OF assms(1), of b] obtain l1 where 1: "step (Timer b) l = Ok l1" "loader_ok l1"
    "heap l1 = heap l" "\<not> done_ch (heap l ! b) \<Longrightarrow> b \<in> ending l1" using assms(2) by auto
  from End_ok [OF 1(2), of b] obtain l2 where 2: "step (End b) l1 = Ok l2" "loader_ok l2"
    "length (heap l2) = length (heap l1)" "\<And>b'. keys (heap l2 ! b') = keys (heap l1 ! b')"
    "\<And>b'. done_ch (heap l1 ! b') \<Longrightarrow> heap l2 ! b' = heap l1 ! b'"
    "b \<in> ending l1 \<Longrightarrow> done_ch (heap l2 ! b)" by auto
  have "done_ch (heap l2 ! b)" using 1(3,4) 2(5,6) by (cases "done_ch (heap l ! b)") auto
  moreover have "done_stable l l2" using 1(3) 2(3,5) by (simp add: done_stable_def)
  ultimately show ?thesis using 1 2 by simp
qed

lemma flush_list:
  assumes "loader_ok l" "\<forall>b\<in>set bs. b < length (heap l)"
  shows "\<exists>l'. exec (concat (map (\<lambda>b. [Timer b, End b]) bs)) l = Ok l' \<and> loader_ok l' \<and>
     length (heap l') = length (heap l) \<and> (\<forall>b'. keys (heap l' ! b') = keys (heap l ! b')) \<and>
     (\<forall>b\<in>set bs. done_ch (heap l' ! b))"
  using assms
proof (induction bs arbitrary: l)
  case Nil
  then show ?case by simp
next
  case (Cons b bs)
  from flush_one [OF Cons.prems(1), of b] Cons.prems(2) obtain l1 where
    1: "exec [Timer b, End b] l = Ok l1" "loader_ok l1" "done_stable l l1"
       "length (heap l1) = length (heap l)" "\<And>b'. keys (heap l1 ! b') = keys (heap l ! b')"
       "done_ch (heap l1 ! b)" by auto
  have "\<forall>b\<in>set bs. b < length (heap l1)" using Cons.prems(2) 1(4) by simp
  from Cons.IH [OF 1(2) this] obtain l2 where
    2: "exec (concat (map (\<lambda>b. [Timer b, End b]) bs)) l1 = Ok l2" "loader_ok l2"
       "length (heap l2) = length (heap l1)" "\<And>b'. keys (heap l2 ! b') = keys (heap l1 ! b')"
       "\<forall>b\<in>set bs. done_ch (heap l2 ! b)" by auto
  from exec_ok [OF 1(2), of "concat (map (\<lambda>b. [Timer b, End b]) bs)"] 2(1)
  have "done_stable l1 l2" by simp
  then have "done_ch (heap l2 ! b)" using 1(4,6) Cons.prems(2) by (simp add: done_stable_def)
  moreover have "exec (concat (map (\<lambda>b. [Timer b, End b]) (b # bs))) l = Ok l2"
    using 1(1) 2(1) exec_append [of "[Timer b, End b]" "concat (map (\<lambda>b. [Timer b, End b]) bs)" l]
    by (simp add: obind_def)
  ultimately show ?case using 1 2 by simp
qed

lemma loader_ok_done:
  "loader_ok l \<Longrightarrow> b < length (heap l) \<Longrightarrow>
     keys (heap l ! b) \<noteq> [] \<and> distinct (keys (heap l ! b)) \<and>
     calls_of b l = (if done_ch (heap l ! b) then [(b, keys (heap l ! b))] else []) \<and>
     (\<not> done_ch (heap l ! b) \<longrightarrow> b \<in> ending l \<or> (b \<in> timers l \<and> \<not> closing (heap l ! b))) \<and>
     (batch l = Some b \<longrightarrow>
        \<not> closing (heap l ! b) \<and> b \<notin> ending l \<and> \<not> done_ch (heap l ! b))"
  by (auto simp: loader_ok_def batch_ok_def split: if_splits)

lemma cache_get_unsafeSet:
  "cache_get (unsafeSet key value l) k = (if k = key then Some value else cache_get l k)"
  by (simp add: cache_get_def unsafeSet_def Let_def split: option.splits)

text \<open>
  C7 (amended). \<^verbatim>\<open>Prime(key, value, force)\<close> stores \<open>value\<close> under \<open>key\<close> and returns true
  when \<open>force\<close> is true or \<open>key\<close> is absent from the cache, and otherwise leaves the loader
  unchanged and returns false; it calls no fetcher, opens no batch and starts no goroutine.
  A \<^verbatim>\<open>Prime(key, v2, false)\<close> after any \<^verbatim>\<open>Prime(key, value, force)\<close> returns false and
  changes nothing; the cached value is then \<open>value\<close> if the earlier call stored it, that is,
  if it returned true.
\<close>

theorem Prime_stores_or_keeps:
  "Prime key value force l =
     (if force \<or> cache_get l key = None then (True, unsafeSet key value l) else (False, l)) \<and>
   cache_get (unsafeSet key value l) key = Some value \<and>
   (\<forall>k. k \<noteq> key \<longrightarrow> cache_get (unsafeSet key value l) k = cache_get l k) \<and>
   calls (snd (Prime key value force l)) = calls l \<and>
   heap (snd (Prime key value force l)) = heap l \<and>
   batch (snd (Prime key value force l)) = batch l \<and>
   timers (snd (Prime key value force l)) = timers l \<and>
   ending (snd (Prime key value force l)) = ending l \<and>
   Prime key v2 False (snd (Prime key value force l)) = (False, snd (Prime key value force l)) \<and>
   (fst (Prime key value force l) \<longrightarrow> cache_get (snd (Prime key v2 False (snd (Prime key value force l)))) key = Some value)"
  by (auto simp add: Prime_def cache_get_unsafeSet)

theorem Prime_stores_or_keeps_witness:
  "fst (Prime (IStr ''k'') (IStr ''v1'') False (NewDataLoader 0 0 echo)) \<and>
   Prime (IStr ''k'') (IStr ''v2'') False (snd (Prime (IStr ''k'') (IStr ''v1'') False (NewDataLoader 0 0 echo)))
     = (False, snd (Prime (IStr ''k'') (IStr ''v1'') False (NewDataLoader 0 0 echo))) \<and>
   cache_get (snd (Prime (IStr ''k'') (IStr ''v2'') False
       (snd (Prime (IStr ''k'') (IStr ''v1'') False (NewDataLoader 0 0 echo))))) (IStr ''k'') = Some (IStr ''v1'') \<and>
   cache_get (unsafeSet (IStr ''k'') (IStr ''v1'') (NewDataLoader 0 0 echo)) (IStr ''j'') = None"
  using Prime_stores_or_keeps [of "IStr ''k''" "IStr ''v1''" False "NewDataLoader 0 0 echo" "IStr ''v2''"]
  by (simp add: Prime_def cache_get_def NewDataLoader_def unsafeSet_def)

text \<open>
  Where the key is cached already, an unforced \<^verbatim>\<open>Prime(key, v1, false)\<close> stores nothing, so
  a following \<^verbatim>\<open>Prime(key, v2, false)\<close> leaves the older value \<open>v0\<close>, not \<open>v1\<close>.
\<close>

theorem Prime_after_Prime_counterexample:
  "cache_get (snd (Prime (IStr ''k'') (IStr ''v2'') False
      (snd (Prime (IStr ''k'') (IStr ''v1'') False
         (snd (Prime (IStr ''k'') (IStr ''v0'') False (NewDataLoader 0 0 echo))))))) (IStr ''k'')
     = Some (IStr ''v0'') \<and>
   Some (IStr ''v0'') \<noteq> Some (IStr ''v1'') \<and>
   fst (Prime (IStr ''k'') (IStr ''v1'') False
         (snd (Prime (IStr ''k'') (IStr ''v0'') False (NewDataLoader 0 0 echo)))) = False"
  by (simp add: Prime_def cache_get_def NewDataLoader_def unsafeSet_def)

subsection \<open>Reachable states and thunks\<close>

lemma extends_refl: "extends l l"
  by (simp add: extends_def done_stable_refl)

lemma extends_trans:
  assumes "extends l l1" "extends l1 l2"
  shows "extends l l2"
proof -
  have ds: "done_stable l l2" using assms done_stable_trans by (auto simp: extends_def)
  have len: "length (heap l) \<le> length (heap l1)" using assms(1) by (simp add: extends_def done_stable_def)
  have "\<exists>ys. keys (heap l2 ! b) = keys (heap l ! b) @ ys" if "b < length (heap l)" for b
  proof -
    from assms(1) that obtain ys where 1: "keys (heap l1 ! b) = keys (heap l ! b) @ ys"
      by (auto simp: extends_def)
    have "b < length (heap l1)" using that len by simp
    with assms(2) obtain zs where 2: "keys (heap l2 ! b) = keys (heap l1 ! b) @ zs"
      by (auto simp: extends_def)
    show ?thesis using 1 2 by simp
  qed
  then show ?thesis using ds assms by (simp add: extends_def)
qed

lemma keyIndex_fetch [simp]: "fetch (snd (keyIndex b key l)) = fetch l"
  by (simp add: keyIndex_def Let_def split: option.splits)

lemma LoadThunk_fetch [simp]: "fetch (snd (LoadThunk key l)) = fetch l"
  by (simp add: LoadThunk_def Let_def case_prod_beta split: option.splits)

lemma keyIndex_keys:
  assumes "b < length (heap l)"
  shows "\<exists>ys. keys (heap (snd (keyIndex b key l)) ! b') = keys (heap l ! b') @ ys"
proof (cases "scan key (keys (heap l ! b))")
  case (Some i)
  then show ?thesis by (simp add: keyIndex_found)
next
  case None
  show ?thesis using keyIndex_new(3,4) [OF None assms] by (cases "b' = b") auto
qed

lemma keyIndex_done:
  assumes "b < length (heap l)"
  shows "done_ch (heap (snd (keyIndex b key l)) ! b') = done_ch (heap l ! b')"
proof (cases "scan key (keys (heap l ! b))")
  case (Some i)
  then show ?thesis by (simp add: keyIndex_found)
next
  case None
  show ?thesis using keyIndex_new(3,6) [OF None assms] by (cases "b' = b") auto
qed

lemma LoadThunk_miss:
  assumes "cache_get l key = None"
  shows "\<exists>b l1. (batch l = Some b \<and> l1 = l \<or>
                  batch l = None \<and> b = length (heap l) \<and>
                  l1 = l\<lparr>heap := heap l @ [new_batch], batch := Some b\<rparr>) \<and>
            LoadThunk key l = (Pending b (fst (keyIndex b key l1)) key, snd (keyIndex b key l1))"
  using assms by (cases "batch l") (simp_all add: LoadThunk_def Let_def case_prod_beta)

lemma keyIndex_pos:
  assumes "b < length (heap l)"
  shows "fst (keyIndex b key l) < length (keys (heap (snd (keyIndex b key l)) ! b)) \<and>
         keys (heap (snd (keyIndex b key l)) ! b) ! fst (keyIndex b key l) = key"
proof (cases "scan key (keys (heap l ! b))")
  case (Some i)
  then show ?thesis using scan_Some [OF Some] by (simp add: keyIndex_found)
next
  case None
  show ?thesis using keyIndex_new(1,4) [OF None assms] by simp
qed

lemma LoadThunk_extends:
  assumes "loader_ok l"
  shows "extends l (snd (LoadThunk key l))"
proof -
  have "\<exists>ys. keys (heap (snd (LoadThunk key l)) ! b') = keys (heap l ! b') @ ys" if "b' < length (heap l)" for b'
  proof (cases "cache_get l key")
    case (Some it)
    then show ?thesis by (simp add: LoadThunk_def)
  next
    case None
    from LoadThunk_miss [OF None] obtain b l1 where
      c: "batch l = Some b \<and> l1 = l \<or> batch l = None \<and> b = length (heap l) \<and>
          l1 = l\<lparr>heap := heap l @ [new_batch], batch := Some b\<rparr>"
      and e: "LoadThunk key l = (Pending b (fst (keyIndex b key l1)) key, snd (keyIndex b key l1))" by blast
    have b: "b < length (heap l1)" using c assms by (auto simp: loader_ok_def bounds_ok_def)
    have "keys (heap l1 ! b') = keys (heap l ! b')" using c that by (auto simp: nth_append)
    then show ?thesis using keyIndex_keys [OF b, of key b'] e by simp
  qed
  then show ?thesis using LoadThunk_stable [OF assms, where key = key]
    by (simp add: extends_def done_stable_def)
qed

lemma LoadThunk_done_back:
  assumes "loader_ok l" "b' < length (heap (snd (LoadThunk key l)))" "done_ch (heap (snd (LoadThunk key l)) ! b')"
  shows "b' < length (heap l) \<and> done_ch (heap l ! b')"
proof (cases "cache_get l key")
  case (Some it)
  then show ?thesis using assms by (simp add: LoadThunk_def)
next
  case None
  from LoadThunk_miss [OF None] obtain b l1 where
    c: "batch l = Some b \<and> l1 = l \<or> batch l = None \<and> b = length (heap l) \<and>
        l1 = l\<lparr>heap := heap l @ [new_batch], batch := Some b\<rparr>"
    and e: "LoadThunk key l = (Pending b (fst (keyIndex b key l1)) key, snd (keyIndex b key l1))" by blast
  have b: "b < length (heap l1)" using c assms by (auto simp: loader_ok_def bounds_ok_def)
  have d: "done_ch (heap l1 ! b')" using assms(3) e keyIndex_done [OF b, of key b'] by simp
  have len: "b' < length (heap l1)" using assms(2) e by (simp add: keyIndex_length)
  show ?thesis using c d len by (auto simp: nth_append new_batch_def less_Suc_eq)
qed

lemma LoadThunk_good:
  assumes "good l"
  shows "good (snd (LoadThunk key l))"
proof -
  have ok: "loader_ok l" using assms by (simp add: good_def)
  have "errs_ok (length (keys (heap (snd (LoadThunk key l)) ! b))) (error (heap (snd (LoadThunk key l)) ! b))"
    if "b < length (heap (snd (LoadThunk key l)))" "done_ch (heap (snd (LoadThunk key l)) ! b)" for b
  proof -
    from LoadThunk_done_back [OF ok that] have 1: "b < length (heap l)" "done_ch (heap l ! b)" by simp_all
    then have "heap (snd (LoadThunk key l)) ! b = heap l ! b" using LoadThunk_stable(2) [OF ok] by simp
    then show ?thesis using assms 1 by (simp add: good_def errors_ok_def)
  qed
  then show ?thesis using assms LoadThunk_ok [OF ok, of key] by (simp add: good_def errors_ok_def)
qed

lemma step_fetch: "step a l = Ok l' \<Longrightarrow> fetch l' = fetch l"
  by (cases a) (auto simp add: startTimer_def end_batch_def Let_def case_prod_beta split: if_splits)

lemma Timer_good:
  assumes "good l" "step (Timer b) l = Ok l'"
  shows "good l' \<and> extends l l'"
proof -
  have ok: "loader_ok l" using assms by (simp add: good_def)
  from Timer_ok [OF ok, of b] assms(2) have 1: "loader_ok l'" "heap l' = heap l" by auto
  have "fetch l' = fetch l" using step_fetch [OF assms(2)] .
  then show ?thesis using assms(1) 1 by (simp add: good_def errors_ok_def extends_def done_stable_def)
qed

lemma End_good:
  assumes "good l" "step (End b) l = Ok l'"
  shows "good l' \<and> extends l l'"
proof (cases "b \<in> ending l")
  case False
  then show ?thesis using assms by (simp add: extends_refl)
next
  case True
  have ok: "loader_ok l" using assms by (simp add: good_def)
  from True have b: "b < length (heap l)" and bok: "batch_ok l b"
    using ok by (auto simp: loader_ok_def bounds_ok_def)
  have nd: "\<not> done_ch (heap l ! b)" using bok True by (auto simp: batch_ok_def split: if_splits)
  from End_ok [OF ok, of b] assms(2) have 1: "loader_ok l'" "length (heap l') = length (heap l)"
    "\<And>b'. keys (heap l' ! b') = keys (heap l ! b')"
    "\<And>b'. done_ch (heap l ! b') \<Longrightarrow> heap l' ! b' = heap l ! b'" by auto
  have f: "fetch l' = fetch l" using step_fetch [OF assms(2)] .
  define l0 where "l0 = l\<lparr>ending := ending l - {b}\<rparr>"
  have "b < length (heap l0)" "\<not> done_ch (heap l0 ! b)" using b nd by (simp_all add: l0_def)
  from end_batch_fields [OF this] assms(2) True have 2:
    "\<And>b'. b' \<noteq> b \<Longrightarrow> heap l' ! b' = heap l ! b'"
    "error (heap l' ! b) = snd (fetch l (length (calls l)) (keys (heap l ! b)))"
    by (auto simp: l0_def)
  have "errs_ok (length (keys (heap l' ! b'))) (error (heap l' ! b'))"
    if "b' < length (heap l)" "done_ch (heap l' ! b')" for b'
  proof (cases "b' = b")
    case True
    then show ?thesis using 2(2) 1(3) [of b] assms(1) by (simp add: good_def fetch_ok_def)
  next
    case False
    then show ?thesis using 2(1) [OF False] that assms(1) by (simp add: good_def errors_ok_def)
  qed
  then have "errors_ok l'" using 1(2) by (simp add: errors_ok_def)
  moreover have "extends l l'" using 1 f by (simp add: extends_def done_stable_def)
  ultimately show ?thesis using 1(1) f assms(1) by (simp add: good_def)
qed

lemma cache_only_good:
  assumes "good l" "heap l' = heap l" "batch l' = batch l" "timers l' = timers l"
    "ending l' = ending l" "calls l' = calls l" "fetch l' = fetch l"
  shows "good l' \<and> extends l l'"
  using assms loader_ok_cache [of l' l]
  by (simp add: good_def errors_ok_def extends_def done_stable_def)

lemma step_good:
  assumes "good l"
  shows "\<exists>l'. step a l = Ok l' \<and> good l' \<and> extends l l'"
proof -
  have ok: "loader_ok l" using assms by (simp add: good_def)
  from step_ok [OF ok, of a] obtain l' where l': "step a l = Ok l'" by blast
  have "good l' \<and> extends l l'"
  proof (cases a)
    case (Timer b)
    then show ?thesis using Timer_good [OF assms] l' by simp
  next
    case (End b)
    then show ?thesis using End_good [OF assms] l' by simp
  next
    case (DoLoadThunk key)
    then show ?thesis using LoadThunk_good [OF assms, of key] LoadThunk_extends [OF ok, of key] l' by auto
  next
    case (DoPrime key v f)
    then have "l' = snd (Prime key v f l)" using l' by simp
    then show ?thesis using cache_only_good [OF assms, of l'] by (simp add: Prime_def Let_def)
  next
    case (DoClear key)
    then have "l' = Clear key l" using l' by simp
    then show ?thesis using cache_only_good [OF assms, of l'] by simp
  qed
  then show ?thesis using l' by simp
qed

lemma exec_good:
  assumes "good l"
  shows "\<exists>l'. exec as l = Ok l' \<and> good l' \<and> extends l l'"
  using assms
proof (induction as arbitrary: l)
  case Nil
  then show ?case by (simp add: extends_refl)
next
  case (Cons a as)
  from step_good [OF Cons.prems, of a] obtain l1 where 1: "step a l = Ok l1" "good l1" "extends l l1" by blast
  from Cons.IH [OF 1(2)] obtain l2 where 2: "exec as l1 = Ok l2" "good l2" "extends l1 l2" by blast
  show ?case using 1 2 extends_trans by auto
qed

lemma good_New: "fetch_ok f \<Longrightarrow> good (NewDataLoader m w f)"
  using loader_ok_New [of m w f] by (simp add: good_def errors_ok_def) (simp add: NewDataLoader_def)

lemma thunk_for_extends: "extends l l' \<Longrightarrow> thunk_for l t key \<Longrightarrow> thunk_for l' t key"
proof (cases t)
  case (Cached it)
  then show ?thesis by simp
next
  case (Pending b pos k)
  assume e: "extends l l'" and t: "thunk_for l t key"
  then have b: "b < length (heap l)" using Pending by simp
  with e obtain ys where "keys (heap l' ! b) = keys (heap l ! b) @ ys" by (auto simp: extends_def)
  moreover have "length (heap l) \<le> length (heap l')" using e by (simp add: extends_def done_stable_def)
  ultimately show ?thesis using t Pending by (auto simp: nth_append)
qed

lemma LoadThunk_thunk_for:
  assumes "loader_ok l"
  shows "thunk_for (snd (LoadThunk key l)) (fst (LoadThunk key l)) key"
proof (cases "cache_get l key")
  case (Some it)
  then show ?thesis by (simp add: LoadThunk_def)
next
  case None
  from LoadThunk_miss [OF None] obtain b l1 where
    c: "batch l = Some b \<and> l1 = l \<or> batch l = None \<and> b = length (heap l) \<and>
        l1 = l\<lparr>heap := heap l @ [new_batch], batch := Some b\<rparr>"
    and e: "LoadThunk key l = (Pending b (fst (keyIndex b key l1)) key, snd (keyIndex b key l1))" by blast
  have b: "b < length (heap l1)" using c assms by (auto simp: loader_ok_def bounds_ok_def)
  show ?thesis using keyIndex_pos [OF b, of key] b e by (simp add: keyIndex_length)
qed

lemma thunk_error_ok:
  assumes "errs_ok n (error bt)" "pos < n"
  shows "\<exists>e. thunk_error bt pos = Ok e"
  using assms by (auto simp: thunk_error_def errs_ok_def index_def len_def split: option.splits)

lemma await_good:
  assumes "good l" "thunk_for l t key"
  shows "\<exists>l'. await t l = Ok l' \<and> good l' \<and> extends l l' \<and>
           (\<forall>b pos k. t = Pending b pos k \<longrightarrow> done_ch (heap l' ! b))"
proof (cases t)
  case (Cached it)
  then show ?thesis using assms by (simp add: extends_refl)
next
  case (Pending b pos k)
  show ?thesis
  proof (cases "done_ch (heap l ! b)")
    case True
    then show ?thesis using assms Pending by (simp add: extends_refl)
  next
    case False
    have ok: "loader_ok l" using assms by (simp add: good_def)
    have b: "b < length (heap l)" using assms(2) Pending by simp
    from flush_one [OF ok b] obtain l' where 1: "exec [Timer b, End b] l = Ok l'" "done_ch (heap l' ! b)" by blast
    from exec_good [OF assms(1), of "[Timer b, End b]"] 1(1) have "good l'" "extends l l'" by auto
    then show ?thesis using 1 False Pending by simp
  qed
qed

lemma call_thunk_good:
  assumes "good l" "thunk_for l t key" "\<forall>b pos k. t = Pending b pos k \<longrightarrow> done_ch (heap l ! b)"
  shows "\<exists>r l'. call_thunk t l = Ok (r, l') \<and> good l' \<and> extends l l' \<and> heap l' = heap l"
proof (cases t)
  case (Cached it)
  then show ?thesis using assms by (simp add: extends_refl)
next
  case (Pending b pos k)
  then have b: "b < length (heap l)" and pos: "pos < length (keys (heap l ! b))" and d: "done_ch (heap l ! b)"
    using assms by simp_all
  have "errs_ok (length (keys (heap l ! b))) (error (heap l ! b))"
    using assms(1) b d by (simp add: good_def errors_ok_def)
  from thunk_error_ok [OF this pos] obtain e where e: "thunk_error (heap l ! b) pos = Ok e" by blast
  define l' where "l' = (if e = None then unsafeSet k (thunk_data (heap l ! b) pos) l else l)"
  have c: "call_thunk t l = Ok ((thunk_data (heap l ! b) pos, e), l')"
    using Pending d e by (simp add: l'_def)
  have "good l' \<and> extends l l'" using cache_only_good [OF assms(1), of l'] by (simp add: l'_def)
  moreover have "heap l' = heap l" by (simp add: l'_def)
  ultimately show ?thesis using c by simp
qed

lemma returned_call_thunk_heap:
  "heap l' ! b = heap l ! b \<Longrightarrow>
   returned (call_thunk (Pending b pos k) l') = returned (call_thunk (Pending b pos k') l)"
  by (simp add: returned_def obind_def split: outcome.splits)

lemma returned_call_thunk_extends:
  assumes "extends l l'" "thunk_for l t key" "\<forall>b pos k. t = Pending b pos k \<longrightarrow> done_ch (heap l ! b)"
  shows "returned (call_thunk t l') = returned (call_thunk t l)"
proof (cases t)
  case (Cached it)
  then show ?thesis by (simp add: returned_def obind_def)
next
  case (Pending b pos k)
  then have "heap l' ! b = heap l ! b" using assms by (simp add: extends_def done_stable_def)
  then show ?thesis using Pending returned_call_thunk_heap by simp
qed

lemma load_thunks_good:
  assumes "good l"
  shows "\<exists>ts l'. load_thunks env i ks l = Ok (ts, l') \<and> good l' \<and> extends l l' \<and>
           length ts = length ks \<and> (\<forall>j<length ks. thunk_for l' (ts ! j) (ks ! j))"
  using assms
proof (induction ks arbitrary: l i)
  case Nil
  then show ?case by (simp add: extends_refl)
next
  case (Cons key rest)
  from exec_good [OF Cons.prems, of "env i"] obtain l1 where
    1: "exec (env i) l = Ok l1" "good l1" "extends l l1" by blast
  define t where "t = fst (LoadThunk key l1)"
  define l2 where "l2 = snd (LoadThunk key l1)"
  have ok1: "loader_ok l1" using 1(2) by (simp add: good_def)
  have 2: "good l2" "extends l1 l2" "thunk_for l2 t key"
    using LoadThunk_good [OF 1(2), of key] LoadThunk_extends [OF ok1, of key]
      LoadThunk_thunk_for [OF ok1, of key] by (simp_all add: l2_def t_def)
  from Cons.IH [OF 2(1), of "Suc i"] obtain ts l3 where
    3: "load_thunks env (Suc i) rest l2 = Ok (ts, l3)" "good l3" "extends l2 l3"
       "length ts = length rest" "\<forall>j<length rest. thunk_for l3 (ts ! j) (rest ! j)" by blast
  have e: "load_thunks env i (key # rest) l = Ok (t # ts, l3)"
    using 1(1) 3(1) by (simp add: obind_def case_prod_beta t_def l2_def)
  have "thunk_for l3 t key" using thunk_for_extends [OF 3(3) 2(3)] .
  then have "\<forall>j<length (key # rest). thunk_for l3 ((t # ts) ! j) ((key # rest) ! j)"
    using 3(5) by (simp add: nth_Cons split: nat.splits)
  moreover have "extends l l3" using extends_trans [OF 1(3)] extends_trans [OF 2(2) 3(3)] by blast
  ultimately show ?case using e 3(2,4) by simp
qed

lemma call_thunks_good:
  assumes "good l" "length ts = length ks" "\<forall>j<length ks. thunk_for l (ts ! j) (ks ! j)"
  shows "\<exists>rs l'. call_thunks env i ts l = Ok (rs, l') \<and> good l' \<and> extends l l' \<and>
           length rs = length ks \<and>
           (\<forall>j<length ks. returned (call_thunk (ts ! j) l') = Ok (rs ! j))"
  using assms
proof (induction ts arbitrary: l i ks)
  case Nil
  then show ?case by (simp add: extends_refl)
next
  case (Cons t rest)
  then obtain key ks' where ks: "ks = key # ks'" by (cases ks) auto
  have tf: "thunk_for l t key" using Cons.prems(3) ks by auto
  have rest: "\<forall>j<length ks'. thunk_for l (rest ! j) (ks' ! j)" using Cons.prems(3) ks by auto
  from exec_good [OF Cons.prems(1), of "env i"] obtain l1 where
    1: "exec (env i) l = Ok l1" "good l1" "extends l l1" by blast
  have tf1: "thunk_for l1 t key" using thunk_for_extends [OF 1(3) tf] .
  from await_good [OF 1(2) tf1] obtain l2 where
    2: "await t l1 = Ok l2" "good l2" "extends l1 l2"
       "\<forall>b pos k. t = Pending b pos k \<longrightarrow> done_ch (heap l2 ! b)" by blast
  have tf2: "thunk_for l2 t key" using thunk_for_extends [OF 2(3) tf1] .
  from call_thunk_good [OF 2(2) tf2 2(4)] obtain r l3 where
    3: "call_thunk t l2 = Ok (r, l3)" "good l3" "extends l2 l3" "heap l3 = heap l2" by blast
  have e03: "extends l l3" using extends_trans [OF 1(3)] extends_trans [OF 2(3) 3(3)] by blast
  have rest3: "\<forall>j<length ks'. thunk_for l3 (rest ! j) (ks' ! j)"
    using rest thunk_for_extends [OF e03] by blast
  have len: "length rest = length ks'" using Cons.prems(2) ks by simp
  from Cons.IH [OF 3(2) len rest3, of "Suc i"] obtain rs l4 where
    4: "call_thunks env (Suc i) rest l3 = Ok (rs, l4)" "good l4" "extends l3 l4"
       "length rs = length ks'" "\<forall>j<length ks'. returned (call_thunk (rest ! j) l4) = Ok (rs ! j)" by blast
  have e: "call_thunks env i (t # rest) l = Ok (r # rs, l4)"
    using 1(1) 2(1) 3(1) 4(1) by (simp add: obind_def)
  have e24: "extends l2 l4" using extends_trans [OF 3(3) 4(3)] .
  have "returned (call_thunk t l4) = returned (call_thunk t l2)"
    using returned_call_thunk_extends [OF e24 tf2 2(4)] .
  then have "returned (call_thunk t l4) = Ok r" using 3(1) by (simp add: returned_def obind_def)
  then have "\<forall>j<length ks. returned (call_thunk ((t # rest) ! j) l4) = Ok ((r # rs) ! j)"
    using 4(5) ks by (simp add: nth_Cons split: nat.splits)
  moreover have "extends l l4" using extends_trans [OF e03 4(3)] .
  ultimately show ?case using e 4(2,4) ks by simp
qed

lemma exec_reach_good:
  assumes "fetch_ok f" "exec sched (NewDataLoader m w f) = Ok l"
  shows "good l"
  using exec_good [OF good_New [OF assms(1)], of sched m w] assms(2) by auto

lemma exec_reach_ok: "exec sched (NewDataLoader m w f) = Ok l \<Longrightarrow> loader_ok l"
  using exec_ok [OF loader_ok_New, of sched m w f] by auto

lemma scan_distinct: "distinct ks \<Longrightarrow> pos < length ks \<Longrightarrow> scan (ks ! pos) ks = Some pos"
proof (induction ks arbitrary: pos)
  case Nil
  then show ?case by simp
next
  case (Cons k ks)
  then show ?case by (cases pos) auto
qed

lemma calls_distinct:
  assumes "loader_ok l" "c \<in> set (calls l)"
  shows "distinct (snd c)"
proof -
  define b where "b = fst c"
  have b: "b < length (heap l)" using assms by (simp add: loader_ok_def bounds_ok_def b_def)
  have "c \<in> set (calls_of b l)" using assms(2) by (simp add: calls_of_def b_def)
  then have "c = (b, keys (heap l ! b))" using loader_ok_done [OF assms(1) b] by (auto split: if_splits)
  then show ?thesis using loader_ok_done [OF assms(1) b] by simp
qed

lemma LoadThunk_miss_pending:
  assumes "loader_ok l" "cache_get l key = None"
  shows "\<exists>b pos l'. LoadThunk key l = (Pending b pos key, l') \<and> b < length (heap l') \<and>
           pos < length (keys (heap l' ! b)) \<and> keys (heap l' ! b) ! pos = key \<and>
           \<not> done_ch (heap l' ! b) \<and> calls_of b l' = []"
proof -
  from LoadThunk_miss [OF assms(2)] obtain b l1 where
    c: "batch l = Some b \<and> l1 = l \<or> batch l = None \<and> b = length (heap l) \<and>
        l1 = l\<lparr>heap := heap l @ [new_batch], batch := Some b\<rparr>"
    and e: "LoadThunk key l = (Pending b (fst (keyIndex b key l1)) key, snd (keyIndex b key l1))" by blast
  define l' where "l' = snd (LoadThunk key l)"
  have ok': "loader_ok l'" using LoadThunk_ok [OF assms(1), of key] by (simp add: l'_def)
  have tf: "thunk_for l' (fst (LoadThunk key l)) key" using LoadThunk_thunk_for [OF assms(1), of key] by (simp add: l'_def)
  then have b': "b < length (heap l')" using e by simp
  have nd1: "\<not> done_ch (heap l1 ! b)"
    using c batch_ok_open [of l b] assms(1) by (auto simp: loader_ok_def bounds_ok_def new_batch_def)
  have b1: "b < length (heap l1)" using c assms(1) by (auto simp: loader_ok_def bounds_ok_def)
  have nd: "\<not> done_ch (heap l' ! b)" using keyIndex_done [OF b1, of key b] nd1 e by (simp add: l'_def)
  then have "calls_of b l' = []" using loader_ok_done [OF ok' b'] by simp
  then show ?thesis using tf nd e by (simp add: l'_def)
qed

subsection \<open>The fetcher is called once for every batch\<close>

lemma fetched_ok_same:
  assumes "fetched_ok l" "heap l' = heap l" "calls l' = calls l" "fetch l' = fetch l"
  shows "fetched_ok l'"
  using assms by (simp add: fetched_ok_def)

lemma keyIndex_calls [simp]: "calls (snd (keyIndex b key l)) = calls l"
  by (simp add: keyIndex_def Let_def split: option.splits)

lemma LoadThunk_calls [simp]: "calls (snd (LoadThunk key l)) = calls l"
  by (simp add: LoadThunk_def Let_def case_prod_beta split: option.splits)

lemma LoadThunk_fetched:
  assumes "loader_ok l" "fetched_ok l"
  shows "fetched_ok (snd (LoadThunk key l))"
  unfolding fetched_ok_def
proof (intro allI impI)
  fix b
  assume b: "b < length (heap (snd (LoadThunk key l)))" and d: "done_ch (heap (snd (LoadThunk key l)) ! b)"
  from LoadThunk_done_back [OF assms(1) b d] have 1: "b < length (heap l)" "done_ch (heap l ! b)" by simp_all
  then have "heap (snd (LoadThunk key l)) ! b = heap l ! b" using LoadThunk_stable(2) [OF assms(1)] by simp
  then show "\<exists>n<length (calls (snd (LoadThunk key l))).
            calls (snd (LoadThunk key l)) ! n = (b, keys (heap (snd (LoadThunk key l)) ! b)) \<and>
            (data (heap (snd (LoadThunk key l)) ! b), error (heap (snd (LoadThunk key l)) ! b)) =
            fetch (snd (LoadThunk key l)) n (keys (heap (snd (LoadThunk key l)) ! b))"
    using assms(2) 1 by (simp add: fetched_ok_def)
qed

lemma End_fetched:
  assumes "loader_ok l" "fetched_ok l" "step (End b) l = Ok l'"
  shows "fetched_ok l'"
proof (cases "b \<in> ending l")
  case False
  then show ?thesis using assms by simp
next
  case True
  then have b: "b < length (heap l)" and bok: "batch_ok l b"
    using assms(1) by (auto simp: loader_ok_def bounds_ok_def)
  have nd: "\<not> done_ch (heap l ! b)" using bok True by (auto simp: batch_ok_def split: if_splits)
  define l0 where "l0 = l\<lparr>ending := ending l - {b}\<rparr>"
  have "b < length (heap l0)" "\<not> done_ch (heap l0 ! b)" using b nd by (simp_all add: l0_def)
  from end_batch_fields [OF this] assms(3) True have 2:
    "length (heap l') = length (heap l)"
    "\<And>b'. b' \<noteq> b \<Longrightarrow> heap l' ! b' = heap l ! b'"
    "keys (heap l' ! b) = keys (heap l ! b)"
    "data (heap l' ! b) = fst (fetch l (length (calls l)) (keys (heap l ! b)))"
    "error (heap l' ! b) = snd (fetch l (length (calls l)) (keys (heap l ! b)))"
    "calls l' = calls l @ [(b, keys (heap l ! b))]" "fetch l' = fetch l"
    by (auto simp: l0_def)
  show ?thesis unfolding fetched_ok_def
  proof (intro allI impI)
    fix b'
    assume b': "b' < length (heap l')" and d: "done_ch (heap l' ! b')"
    show "\<exists>n<length (calls l'). calls l' ! n = (b', keys (heap l' ! b')) \<and>
            (data (heap l' ! b'), error (heap l' ! b')) = fetch l' n (keys (heap l' ! b'))"
    proof (cases "b' = b")
      case True
      have "length (calls l) < length (calls l') \<and> calls l' ! length (calls l) = (b', keys (heap l' ! b')) \<and>
            (data (heap l' ! b'), error (heap l' ! b')) = fetch l' (length (calls l)) (keys (heap l' ! b'))"
        using True 2 by simp
      then show ?thesis by blast
    next
      case False
      have h: "heap l' ! b' = heap l ! b'" using 2(2) [OF False] .
      with assms(2) b' d 2(1) obtain n where n: "n < length (calls l)" "calls l ! n = (b', keys (heap l ! b'))"
        "(data (heap l ! b'), error (heap l ! b')) = fetch l n (keys (heap l ! b'))"
        by (auto simp: fetched_ok_def)
      have "n < length (calls l') \<and> calls l' ! n = (b', keys (heap l' ! b')) \<and>
            (data (heap l' ! b'), error (heap l' ! b')) = fetch l' n (keys (heap l' ! b'))"
        using n h 2(6,7) by (simp add: nth_append)
      then show ?thesis by blast
    qed
  qed
qed

lemma step_fetched:
  assumes "loader_ok l" "fetched_ok l" "step a l = Ok l'"
  shows "fetched_ok l'"
proof (cases a)
  case (Timer b)
  from Timer_ok [OF assms(1), of b] assms(3) Timer have "heap l' = heap l" "calls l' = calls l" by auto
  then show ?thesis using fetched_ok_same [OF assms(2)] step_fetch [OF assms(3)] by simp
next
  case (End b)
  then show ?thesis using End_fetched [OF assms(1,2)] assms(3) by simp
next
  case (DoLoadThunk key)
  then show ?thesis using LoadThunk_fetched [OF assms(1,2), of key] assms(3) by auto
next
  case (DoPrime key v f)
  then have "l' = snd (Prime key v f l)" using assms(3) by simp
  then show ?thesis using fetched_ok_same [OF assms(2), of l'] by simp
next
  case (DoClear key)
  then have "l' = Clear key l" using assms(3) by simp
  then show ?thesis using fetched_ok_same [OF assms(2), of l'] by simp
qed

lemma exec_fetched:
  assumes "loader_ok l" "fetched_ok l" "exec as l = Ok l'"
  shows "fetched_ok l' \<and> fetch l' = fetch l"
  using assms
proof (induction as arbitrary: l)
  case Nil
  then show ?case by simp
next
  case (Cons a as)
  from step_ok [OF Cons.prems(1), of a] obtain l1 where 1: "step a l = Ok l1" "loader_ok l1" by blast
  have 2: "fetched_ok l1" using step_fetched [OF Cons.prems(1,2) 1(1)] .
  have 3: "exec as l1 = Ok l'" using Cons.prems(3) 1(1) by simp
  from Cons.IH [OF 1(2) 2 3] step_fetch [OF 1(1)] show ?case by simp
qed

lemma fetched_ok_New: "fetched_ok (NewDataLoader m w f)"
  by (simp add: fetched_ok_def NewDataLoader_def)

lemma exec_reach_fetched:
  assumes "exec sched (NewDataLoader m w f) = Ok l"
  shows "fetched_ok l \<and> fetch l = f"
  using exec_fetched [OF loader_ok_New fetched_ok_New assms] by (simp add: NewDataLoader_def)

text \<open>
  C3. Under every schedule of callers, timers and \<^verbatim>\<open>b.end\<close> goroutines, starting from
  \<^verbatim>\<open>NewDataLoader\<close> with the fetcher \<open>f\<close>, the run does not panic (no channel is closed
  twice), the loader's fetcher is still \<open>f\<close> and, for every
  batch: it holds a key; \<^verbatim>\<open>fetch\<close> has been called for it exactly once, on its key list,
  if it is finalized, and not at all otherwise; a finalized batch holds as \<^verbatim>\<open>data\<close> and
  \<^verbatim>\<open>error\<close> what \<open>f\<close> returned at that call for its key list; while it is not finalized,
  a goroutine
  that will finalize it is pending (its \<^verbatim>\<open>b.end\<close>, or its timer with \<^verbatim>\<open>closing\<close> unset);
  a batch that either path has detached is not the loader's open batch, so it takes no
  more keys and the size path cannot fire on it;
  once \<^verbatim>\<open>closing\<close> is set by the size path, the timer does nothing but return. Letting
  every pending timer and \<^verbatim>\<open>b.end\<close> run finalizes every batch, with exactly one call of
  \<^verbatim>\<open>fetch\<close> each, on its key list, whose result the batch then holds.
\<close>

theorem fetch_once_per_batch:
  "\<exists>l. exec sched (NewDataLoader m w f) = Ok l \<and> fetch l = f \<and>
     (\<forall>b<length (heap l).
        keys (heap l ! b) \<noteq> [] \<and>
        calls_of b l = (if done_ch (heap l ! b) then [(b, keys (heap l ! b))] else []) \<and>
        (done_ch (heap l ! b) \<longrightarrow>
           (\<exists>n<length (calls l). calls l ! n = (b, keys (heap l ! b)) \<and>
              (data (heap l ! b), error (heap l ! b)) = f n (keys (heap l ! b)))) \<and>
        (\<not> done_ch (heap l ! b) \<longrightarrow> b \<in> ending l \<or> (b \<in> timers l \<and> \<not> closing (heap l ! b))) \<and>
        (batch l = Some b \<longrightarrow>
           \<not> closing (heap l ! b) \<and> b \<notin> ending l \<and> \<not> done_ch (heap l ! b)) \<and>
        (closing (heap l ! b) \<longrightarrow> step (Timer b) l = Ok (l\<lparr>timers := timers l - {b}\<rparr>))) \<and>
     (\<forall>c\<in>set (calls l). fst c < length (heap l)) \<and>
     (\<exists>l'. exec (flush (length (heap l))) l = Ok l' \<and> length (heap l') = length (heap l) \<and>
        (\<forall>b<length (heap l).
           keys (heap l' ! b) = keys (heap l ! b) \<and> done_ch (heap l' ! b) \<and>
           calls_of b l' = [(b, keys (heap l ! b))] \<and>
           (\<exists>n<length (calls l'). calls l' ! n = (b, keys (heap l ! b)) \<and>
              (data (heap l' ! b), error (heap l' ! b)) = f n (keys (heap l ! b)))))"
proof -
  from exec_ok [OF loader_ok_New, of sched m w f] obtain l where
    l: "exec sched (NewDataLoader m w f) = Ok l" "loader_ok l" by blast
  have fl: "fetched_ok l" "fetch l = f" using exec_reach_fetched [OF l(1)] by simp_all
  have "\<forall>b\<in>set [0..<length (heap l)]. b < length (heap l)" by simp
  from flush_list [OF l(2) this] obtain l' where
    l': "exec (flush (length (heap l))) l = Ok l'" "loader_ok l'" "length (heap l') = length (heap l)"
      "\<And>b'. keys (heap l' ! b') = keys (heap l ! b')" "\<forall>b<length (heap l). done_ch (heap l' ! b)"
    by (auto simp: flush_def)
  have fl': "fetched_ok l'" "fetch l' = f" using exec_fetched [OF l(2) fl(1) l'(1)] fl(2) by simp_all
  have A: "keys (heap l ! b) \<noteq> [] \<and>
        calls_of b l = (if done_ch (heap l ! b) then [(b, keys (heap l ! b))] else []) \<and>
        (done_ch (heap l ! b) \<longrightarrow>
           (\<exists>n<length (calls l). calls l ! n = (b, keys (heap l ! b)) \<and>
              (data (heap l ! b), error (heap l ! b)) = f n (keys (heap l ! b)))) \<and>
        (\<not> done_ch (heap l ! b) \<longrightarrow> b \<in> ending l \<or> (b \<in> timers l \<and> \<not> closing (heap l ! b))) \<and>
        (batch l = Some b \<longrightarrow>
           \<not> closing (heap l ! b) \<and> b \<notin> ending l \<and> \<not> done_ch (heap l ! b)) \<and>
        (closing (heap l ! b) \<longrightarrow> step (Timer b) l = Ok (l\<lparr>timers := timers l - {b}\<rparr>))"
    if "b < length (heap l)" for b
  proof -
    have "closing (heap l ! b) \<Longrightarrow> step (Timer b) l = Ok (l\<lparr>timers := timers l - {b}\<rparr>)"
      by (cases "b \<in> timers l") (simp_all add: startTimer_def)
    moreover have "done_ch (heap l ! b) \<Longrightarrow>
           (\<exists>n<length (calls l). calls l ! n = (b, keys (heap l ! b)) \<and>
              (data (heap l ! b), error (heap l ! b)) = f n (keys (heap l ! b)))"
      using fl that by (simp add: fetched_ok_def)
    ultimately show ?thesis using loader_ok_done [OF l(2) that] by simp
  qed
  have B: "\<forall>c\<in>set (calls l). fst c < length (heap l)" using l(2) by (simp add: loader_ok_def bounds_ok_def)
  have C: "keys (heap l' ! b) = keys (heap l ! b) \<and> done_ch (heap l' ! b) \<and>
           calls_of b l' = [(b, keys (heap l ! b))] \<and>
           (\<exists>n<length (calls l'). calls l' ! n = (b, keys (heap l ! b)) \<and>
              (data (heap l' ! b), error (heap l' ! b)) = f n (keys (heap l ! b)))"
    if "b < length (heap l)" for b
  proof -
    have "\<exists>n<length (calls l'). calls l' ! n = (b, keys (heap l' ! b)) \<and>
              (data (heap l' ! b), error (heap l' ! b)) = f n (keys (heap l' ! b))"
      using fl' that l'(3,5) by (simp add: fetched_ok_def)
    then show ?thesis using loader_ok_done [OF l'(2), of b] that l'(3,4,5) by simp
  qed
  show ?thesis using l(1) fl(2) l'(1) l'(3) A B C by blast
qed

theorem fetch_once_per_batch_witness:
  "\<exists>l. exec [DoLoadThunk (IInt 1), DoLoadThunk (IInt 2), DoLoadThunk (IInt 3), Timer 0, End 0]
          (NewDataLoader 2 0 echo) = Ok l \<and>
       0 < length (heap l) \<and> closing (heap l ! 0) \<and> done_ch (heap l ! 0) \<and>
       calls_of 0 l = [(0, [IInt 1, IInt 2])] \<and>
       calls l ! 0 = (0, [IInt 1, IInt 2]) \<and>
       (data (heap l ! 0), error (heap l ! 0)) = echo 0 [IInt 1, IInt 2] \<and>
       data (heap l ! 0) = Some [IInt 1, IInt 2] \<and> error (heap l ! 0) = None \<and>
       1 < length (heap l) \<and> \<not> done_ch (heap l ! 1) \<and> 1 \<in> timers l \<and> calls_of 1 l = []"
  using fetch_once_per_batch
    [of "[DoLoadThunk (IInt 1), DoLoadThunk (IInt 2), DoLoadThunk (IInt 3), Timer 0, End 0]"
        2 0 echo]
  by (simp add: NewDataLoader_def LoadThunk_def keyIndex_def cache_get_def Let_def
        startTimer_def end_batch_def new_batch_def echo_def calls_of_def)

subsection \<open>Keys, thunks and the cache\<close>

text \<open>
  C5. In every state that a loader reaches, the key list of every batch is free of
  duplicates, and so is every key list that \<^verbatim>\<open>fetch\<close> was called on. \<^verbatim>\<open>keyIndex\<close> returns
  the index of the key and changes nothing when the key is in the batch, and appends it,
  returning the new last index, when it is not. While the batch is open, \<^verbatim>\<open>LoadThunk\<close> of
  a key that sits at \<open>pos\<close> returns the thunk of that position and changes nothing. Once
  the batch is finalized, every thunk of one position returns the same value and error,
  whatever runs in between.
\<close>

theorem batch_keys_unique:
  assumes "exec sched (NewDataLoader m w f) = Ok l"
  shows "(\<forall>c\<in>set (calls l). distinct (snd c)) \<and>
     (\<forall>b<length (heap l).
        distinct (keys (heap l ! b)) \<and>
        (\<forall>key. (key \<in> set (keys (heap l ! b)) \<longrightarrow>
                  (\<exists>i<length (keys (heap l ! b)).
                      keys (heap l ! b) ! i = key \<and> keyIndex b key l = (i, l))) \<and>
               (key \<notin> set (keys (heap l ! b)) \<longrightarrow>
                  fst (keyIndex b key l) = length (keys (heap l ! b)) \<and>
                  keys (heap (snd (keyIndex b key l)) ! b) = keys (heap l ! b) @ [key] \<and>
                  distinct (keys (heap (snd (keyIndex b key l)) ! b)))) \<and>
        (\<forall>pos. batch l = Some b \<and> pos < length (keys (heap l ! b)) \<and>
                cache_get l (keys (heap l ! b) ! pos) = None \<longrightarrow>
                LoadThunk (keys (heap l ! b) ! pos) l = (Pending b pos (keys (heap l ! b) ! pos), l)) \<and>
        (\<forall>s l1 pos k1 k2. done_ch (heap l ! b) \<and> exec s l = Ok l1 \<longrightarrow>
            returned (call_thunk (Pending b pos k1) l1) = returned (call_thunk (Pending b pos k2) l)))"
proof -
  have ok: "loader_ok l" using exec_reach_ok [OF assms] .
  have A: "\<forall>c\<in>set (calls l). distinct (snd c)" using calls_distinct [OF ok] by blast
  have B: "distinct (keys (heap l ! b))" if "b < length (heap l)" for b
    using loader_ok_done [OF ok that] by simp
  have C1: "\<exists>i<length (keys (heap l ! b)). keys (heap l ! b) ! i = key \<and> keyIndex b key l = (i, l)"
    if "key \<in> set (keys (heap l ! b))" for b key
  proof -
    from that obtain i where i: "scan key (keys (heap l ! b)) = Some i"
      using scan_None [of key "keys (heap l ! b)"] by (cases "scan key (keys (heap l ! b))") auto
    show ?thesis using scan_Some [OF i] keyIndex_found [OF i] by blast
  qed
  have C2: "fst (keyIndex b key l) = length (keys (heap l ! b)) \<and>
            keys (heap (snd (keyIndex b key l)) ! b) = keys (heap l ! b) @ [key] \<and>
            distinct (keys (heap (snd (keyIndex b key l)) ! b))"
    if "b < length (heap l)" "key \<notin> set (keys (heap l ! b))" for b key
  proof -
    have n: "scan key (keys (heap l ! b)) = None" using that(2) by (simp add: scan_None)
    show ?thesis using keyIndex_new(1,4) [OF n that(1)] B [OF that(1)] that(2) by simp
  qed
  have D: "LoadThunk (keys (heap l ! b) ! pos) l = (Pending b pos (keys (heap l ! b) ! pos), l)"
    if "b < length (heap l)" "batch l = Some b" "pos < length (keys (heap l ! b))"
       "cache_get l (keys (heap l ! b) ! pos) = None" for b pos
    using scan_distinct [OF B [OF that(1)] that(3)] that(2,4)
    by (simp add: LoadThunk_def keyIndex_found)
  have E: "returned (call_thunk (Pending b pos k1) l1) = returned (call_thunk (Pending b pos k2) l)"
    if "b < length (heap l)" "done_ch (heap l ! b)" "exec s l = Ok l1" for b s l1 pos k1 k2
  proof -
    from exec_ok [OF ok, of s] that(3) have "done_stable l l1" by auto
    then have "heap l1 ! b = heap l ! b" using that(1,2) by (simp add: done_stable_def)
    then show ?thesis by (rule returned_call_thunk_heap)
  qed
  show ?thesis using A B C1 C2 D E by blast
qed

theorem batch_keys_unique_witness:
  "\<exists>l. exec [DoLoadThunk (IStr ''a''), DoLoadThunk (IStr ''b''), DoLoadThunk (IStr ''a'')]
          (NewDataLoader 0 1 echo) = Ok l \<and>
       0 < length (heap l) \<and> keys (heap l ! 0) = [IStr ''a'', IStr ''b''] \<and>
       distinct (keys (heap l ! 0)) \<and>
       keyIndex 0 (IStr ''b'') l = (1, l) \<and>
       fst (keyIndex 0 (IStr ''c'') l) = 2 \<and>
       keys (heap (snd (keyIndex 0 (IStr ''c'') l)) ! 0) = [IStr ''a'', IStr ''b'', IStr ''c''] \<and>
       batch l = Some 0 \<and> cache_get l (IStr ''b'') = None \<and>
       LoadThunk (IStr ''b'') l = (Pending 0 1 (IStr ''b''), l)"
proof -
  let ?s = "[DoLoadThunk (IStr ''a''), DoLoadThunk (IStr ''b''), DoLoadThunk (IStr ''a'')]"
  obtain l where l: "exec ?s (NewDataLoader 0 1 echo) = Ok l" by simp
  have c: "0 < length (heap l)" "keys (heap l ! 0) = [IStr ''a'', IStr ''b'']" "batch l = Some 0"
    "cache_get l (IStr ''b'') = None"
    using l by (auto simp add: NewDataLoader_def LoadThunk_def keyIndex_def cache_get_def Let_def new_batch_def)
  from batch_keys_unique [OF l] c(1) have u:
    "distinct (keys (heap l ! 0))"
    "\<And>key. key \<in> set (keys (heap l ! 0)) \<Longrightarrow>
        \<exists>i<length (keys (heap l ! 0)). keys (heap l ! 0) ! i = key \<and> keyIndex 0 key l = (i, l)"
    "\<And>key. key \<notin> set (keys (heap l ! 0)) \<Longrightarrow>
        fst (keyIndex 0 key l) = length (keys (heap l ! 0)) \<and>
        keys (heap (snd (keyIndex 0 key l)) ! 0) = keys (heap l ! 0) @ [key]"
    "\<And>pos. batch l = Some 0 \<Longrightarrow> pos < length (keys (heap l ! 0)) \<Longrightarrow>
        cache_get l (keys (heap l ! 0) ! pos) = None \<Longrightarrow>
        LoadThunk (keys (heap l ! 0) ! pos) l = (Pending 0 pos (keys (heap l ! 0) ! pos), l)"
    by blast+
  from u(2) [of "IStr ''b''"] c(2) obtain i where
    i: "i < 2" "[IStr ''a'', IStr ''b''] ! i = IStr ''b''" "keyIndex 0 (IStr ''b'') l = (i, l)" by auto
  from i(1,2) have "i = 1" by (cases i) auto
  with i(3) have 1: "keyIndex 0 (IStr ''b'') l = (1, l)" by simp
  from u(3) [of "IStr ''c''"] c(2) have 2: "fst (keyIndex 0 (IStr ''c'') l) = 2"
    "keys (heap (snd (keyIndex 0 (IStr ''c'') l)) ! 0) = [IStr ''a'', IStr ''b'', IStr ''c'']" by simp_all
  from u(4) [of 1] c have 3: "LoadThunk (IStr ''b'') l = (Pending 0 1 (IStr ''b''), l)" by simp
  show ?thesis using l c u(1) 1 2 3 by blast
qed

text \<open>
  C4 (amended). When the thunk of a batch position returns with a nil error, it has stored
  the value under its key in the cache; when it returns with an error, it leaves the loader
  as it was, so that a key that was not cached is still not cached and the next
  \<^verbatim>\<open>LoadThunk\<close> of it puts it into a batch that has not been fetched yet. A thunk made on
  a cache hit returns, with a nil error, the value that was cached for the key when
  \<^verbatim>\<open>LoadThunk\<close> ran.
\<close>

theorem thunk_caches_on_success:
  assumes "exec sched (NewDataLoader m w f) = Ok l"
    and "call_thunk (Pending b pos key) l = Ok ((v, e), l')"
  shows "(e = None \<longrightarrow> l' = unsafeSet key v l \<and> cache_get l' key = Some v) \<and>
         (e \<noteq> None \<longrightarrow> l' = l \<and>
            (cache_get l key = None \<longrightarrow>
               (\<exists>b' pos' l''. LoadThunk key l' = (Pending b' pos' key, l'') \<and>
                   b' < length (heap l'') \<and> keys (heap l'' ! b') ! pos' = key \<and>
                   \<not> done_ch (heap l'' ! b') \<and> calls_of b' l'' = []))) \<and>
         (\<forall>k it l0 l1. LoadThunk k l0 = (Cached it, l1) \<longrightarrow>
            cache_get l0 k = Some it \<and> l1 = l0 \<and> call_thunk (Cached it) l1 = Ok ((it, None), l1))"
proof -
  have ok: "loader_ok l" using exec_reach_ok [OF assms(1)] .
  have 1: "e = None \<Longrightarrow> l' = unsafeSet key v l" and 2: "e \<noteq> None \<Longrightarrow> l' = l"
    using assms(2) by (auto split: if_splits outcome.splits)
  have 3: "e = None \<Longrightarrow> cache_get l' key = Some v" using 1 by (simp add: cache_get_unsafeSet)
  have 4: "\<exists>b' pos' l''. LoadThunk key l' = (Pending b' pos' key, l'') \<and>
                   b' < length (heap l'') \<and> keys (heap l'' ! b') ! pos' = key \<and>
                   \<not> done_ch (heap l'' ! b') \<and> calls_of b' l'' = []"
    if "e \<noteq> None" "cache_get l key = None"
    using LoadThunk_miss_pending [OF ok that(2)] 2 [OF that(1)] by blast
  have 5: "cache_get l0 k = Some it \<and> l1 = l0 \<and> call_thunk (Cached it) l1 = Ok ((it, None), l1)"
    if "LoadThunk k l0 = (Cached it, l1)" for k it l0 l1
    using that by (auto simp add: LoadThunk_def Let_def case_prod_beta split: option.splits)
  show ?thesis using 1 2 3 4 5 by blast
qed

theorem thunk_caches_on_success_witness:
  "\<exists>l l' l2 l2'.
     exec [DoLoadThunk (IStr ''a''), Timer 0, End 0] (NewDataLoader 0 1 picky) = Ok l \<and>
     call_thunk (Pending 0 0 (IStr ''a'')) l = Ok ((IStr ''a'', None), l') \<and>
     cache_get l' (IStr ''a'') = Some (IStr ''a'') \<and>
     exec [DoLoadThunk (IStr ''bad''), Timer 0, End 0] (NewDataLoader 0 1 picky) = Ok l2 \<and>
     call_thunk (Pending 0 0 (IStr ''bad'')) l2 = Ok ((IStr ''bad'', Some (OtherError ''no such key'')), l2) \<and>
     cache_get l2 (IStr ''bad'') = None \<and>
     LoadThunk (IStr ''bad'') l2 = (Pending 1 0 (IStr ''bad''), l2') \<and> calls_of 1 l2' = []"
proof -
  obtain l where l: "exec [DoLoadThunk (IStr ''a''), Timer 0, End 0] (NewDataLoader 0 1 picky) = Ok l"
    using exec_ok [OF loader_ok_New] by blast
  obtain l2 where l2: "exec [DoLoadThunk (IStr ''bad''), Timer 0, End 0] (NewDataLoader 0 1 picky) = Ok l2"
    using exec_ok [OF loader_ok_New] by blast
  have c: "case obind (exec [DoLoadThunk (IStr ''a''), Timer 0, End 0] (NewDataLoader 0 1 picky))
                  (call_thunk (Pending 0 0 (IStr ''a''))) of
             Ok (r, l') \<Rightarrow> r = (IStr ''a'', None) | _ \<Rightarrow> False"
    by code_simp
  have c2: "case obind (exec [DoLoadThunk (IStr ''bad''), Timer 0, End 0] (NewDataLoader 0 1 picky))
                  (\<lambda>l. obind (call_thunk (Pending 0 0 (IStr ''bad'')) l) (\<lambda>(r, l').
                     Ok (r, cache_get l (IStr ''bad''), fst (LoadThunk (IStr ''bad'') l')))) of
             Ok (r, c, t) \<Rightarrow> r = (IStr ''bad'', Some (OtherError ''no such key'')) \<and> c = None \<and>
                t = Pending 1 0 (IStr ''bad'') | _ \<Rightarrow> False"
    by code_simp
  from c l obtain l' where l': "call_thunk (Pending 0 0 (IStr ''a'')) l = Ok ((IStr ''a'', None), l')"
    by (auto simp add: obind_def split: outcome.splits)
  from c2 l2 obtain l2' where l2': "call_thunk (Pending 0 0 (IStr ''bad'')) l2 =
        Ok ((IStr ''bad'', Some (OtherError ''no such key'')), l2')" "cache_get l2 (IStr ''bad'') = None"
      "fst (LoadThunk (IStr ''bad'') l2') = Pending 1 0 (IStr ''bad'')"
    by (auto simp add: obind_def split: outcome.splits)
  from thunk_caches_on_success [OF l l'] have 1: "cache_get l' (IStr ''a'') = Some (IStr ''a'')" by blast
  from thunk_caches_on_success [OF l2 l2'(1)] l2'(2) obtain b' pos' l'' where
    2: "l2' = l2" "LoadThunk (IStr ''bad'') l2' = (Pending b' pos' (IStr ''bad''), l'')" "calls_of b' l'' = []"
    by auto
  from 2(2) l2'(3) have "b' = 1" "pos' = 0" by simp_all
  then show ?thesis using l l' 1 l2 l2' 2 by auto
qed

text \<open>
  The cache can hold a key whose latest fetch failed. Two callers load \<^verbatim>\<open>"k"\<close> with
  \<^verbatim>\<open>maxBatch = 1\<close>, so each call closes a batch of its own. The first fetch succeeds, the
  second fails. The first thunk caches the row; the second returns the error and leaves
  the cache as it is, with the row in it.
\<close>

theorem error_fetch_counterexample:
  "(case (let (t1, l1) = LoadThunk (IStr ''k'') (NewDataLoader 1 0 flaky);
              (t2, l2) = LoadThunk (IStr ''k'') l1
          in obind (exec [End 0, End 1] l2) (\<lambda>l3.
               obind (call_thunk t1 l3) (\<lambda>(r1, l4).
                 obind (call_thunk t2 l4) (\<lambda>(r2, l5). Ok (r1, r2, l5))))) of
      Ok (r1, r2, l) \<Rightarrow>
        r1 = (IStr ''row'', None) \<and> r2 = (INil, Some (OtherError ''backend down'')) \<and>
        calls l = [(0, [IStr ''k'']), (1, [IStr ''k''])] \<and>
        error (heap l ! 1) = Some [Some (OtherError ''backend down'')] \<and>
        cache_get l (IStr ''k'') = Some (IStr ''row'')
    | _ \<Rightarrow> False)"
  by code_simp

text \<open>
  C9. A fetcher that returns its keys as values and reports no error with an empty slice
  that is not nil: the thunk reads \<^verbatim>\<open>batch.data\<close> under the guard
  \<^verbatim>\<open>pos < len(batch.data)\<close>, but reads \<^verbatim>\<open>batch.error[pos]\<close> whenever \<^verbatim>\<open>batch.error\<close> is not
  nil and not of length 1, so it panics with an index out of range, and neither \<^verbatim>\<open>LoadAll\<close>
  nor \<^verbatim>\<open>Load\<close> returns. With the same values and a nil slice of errors, \<^verbatim>\<open>LoadAll\<close> returns
  the values and nil errors, one for each key.
\<close>

theorem LoadAll_empty_errors_panics:
  "(case LoadAll (\<lambda>i. []) [IStr ''a''] (NewDataLoader 0 1 empty_errors) of
      Panic p \<Rightarrow> p = IndexOutOfRange | _ \<Rightarrow> False) \<and>
   (case Load [] (IStr ''a'') (NewDataLoader 0 1 empty_errors) of
      Panic p \<Rightarrow> p = IndexOutOfRange | _ \<Rightarrow> False) \<and>
   thunk_data \<lparr>keys = [IStr ''a''], data = Some [IStr ''a''], error = Some [],
               closing = False, done_ch = True\<rparr> 0 = IStr ''a'' \<and>
   thunk_error \<lparr>keys = [IStr ''a''], data = Some [IStr ''a''], error = Some [],
                closing = False, done_ch = True\<rparr> 0 = Panic IndexOutOfRange \<and>
   (case LoadAll (\<lambda>i. []) [IStr ''a''] (NewDataLoader 0 1 echo) of
      Ok ((vals, errs), l) \<Rightarrow> vals = Some [IStr ''a''] \<and> errs = Some [None] | _ \<Rightarrow> False)"
  by code_simp

text \<open>
  With a fetcher whose error slices are nil, of one element, or of one element per key:
  in every state that the loader reaches and under every schedule of the rest of the
  program, \<^verbatim>\<open>LoadAll(keys)\<close> returns, with a slice of values and a slice of errors as long as
  \<open>keys\<close>; the thunk enqueued for \<open>keys[i]\<close> holds a cached value or the position where
  \<open>keys[i]\<close> sits in its batch, and \<open>values[i]\<close>, \<open>errors[i]\<close> are what that thunk returns.
\<close>

theorem LoadAll_positional:
  assumes "fetch_ok f" "exec sched (NewDataLoader m w f) = Ok l"
  shows "\<exists>ts l1 vals errs l'.
           load_thunks env 0 ks l = Ok (ts, l1) \<and>
           LoadAll env ks l = Ok ((Some vals, Some errs), l') \<and>
           length ts = length ks \<and> length vals = length ks \<and> length errs = length ks \<and>
           (\<forall>i<length ks. thunk_for l' (ts ! i) (ks ! i) \<and>
                           returned (call_thunk (ts ! i) l') = Ok (vals ! i, errs ! i))"
proof -
  have g: "good l" using exec_reach_good [OF assms] .
  from load_thunks_good [OF g, of env 0 ks] obtain ts l1 where
    1: "load_thunks env 0 ks l = Ok (ts, l1)" "good l1" "length ts = length ks"
       "\<forall>j<length ks. thunk_for l1 (ts ! j) (ks ! j)" by blast
  from call_thunks_good [OF 1(2) 1(3) 1(4), of env "length ks"] obtain rs l' where
    2: "call_thunks env (length ks) ts l1 = Ok (rs, l')" "extends l1 l'" "length rs = length ks"
       "\<forall>j<length ks. returned (call_thunk (ts ! j) l') = Ok (rs ! j)" by blast
  have e: "LoadAll env ks l = Ok ((Some (map fst rs), Some (map snd rs)), l')"
    using 1(1) 2(1) by (simp add: LoadAll_def obind_def)
  have "thunk_for l' (ts ! i) (ks ! i) \<and>
        returned (call_thunk (ts ! i) l') = Ok (map fst rs ! i, map snd rs ! i)" if "i < length ks" for i
    using that 1(4) 2(3,4) thunk_for_extends [OF 2(2)] by simp
  then show ?thesis using 1(1,3) e 2(3) by auto
qed

theorem LoadAll_positional_witness:
  "fetch_ok picky \<and>
   exec [DoLoadThunk (IStr ''z'')] (NewDataLoader 2 1 picky) \<noteq> Blocked \<and>
   (\<exists>l l'. exec [DoLoadThunk (IStr ''z'')] (NewDataLoader 2 1 picky) = Ok l \<and>
      LoadAll (\<lambda>i. []) [IStr ''bad'', IStr ''a'', IStr ''bad'', IStr ''z''] l =
        Ok ((Some [IStr ''bad'', IStr ''a'', IStr ''bad'', IStr ''z''],
             Some [Some (OtherError ''no such key''), None, Some (OtherError ''no such key''), None]), l'))"
proof -
  let ?ks = "[IStr ''bad'', IStr ''a'', IStr ''bad'', IStr ''z'']"
  have h: "fetch_ok picky" by (simp add: fetch_ok_def errs_ok_def picky_def len_def)
  obtain l where l: "exec [DoLoadThunk (IStr ''z'')] (NewDataLoader 2 1 picky) = Ok l" by simp
  have c: "case obind (exec [DoLoadThunk (IStr ''z'')] (NewDataLoader 2 1 picky)) (LoadAll (\<lambda>i. []) ?ks) of
             Ok ((vals, errs), l') \<Rightarrow>
               vals = Some [IStr ''bad'', IStr ''a'', IStr ''bad'', IStr ''z''] \<and>
               errs = Some [Some (OtherError ''no such key''), None, Some (OtherError ''no such key''), None]
           | _ \<Rightarrow> False"
    by code_simp
  from LoadAll_positional [OF h l, of "\<lambda>i. []" ?ks] obtain vals errs l' where
    r: "LoadAll (\<lambda>i. []) ?ks l = Ok ((Some vals, Some errs), l')" by blast
  from c l r have "vals = [IStr ''bad'', IStr ''a'', IStr ''bad'', IStr ''z''] \<and>
      errs = [Some (OtherError ''no such key''), None, Some (OtherError ''no such key''), None]"
    by (simp add: obind_def)
  then show ?thesis using h l r by auto
qed

section \<open>Properties of the error classification\<close>

text \<open>
  C1. \<^verbatim>\<open>IsLoadingError(nil)\<close> is true: the nil error skips the type switch and reaches
  \<^verbatim>\<open>return true\<close>. On a non-nil error the result is false for the two registration
  errors and true for any other error.
\<close>

theorem IsLoadingError_nil:
  "IsLoadingError None \<and> IsLoadingError (Some (OtherError m)) \<and>
   \<not> IsLoadingError (Some (ObjTypeNotRegError m)) \<and> \<not> IsLoadingError (Some (AttrNotRegError m))"
  by simp

section \<open>Properties of AttrDataLoader and ObjAttrDataLoader\<close>

text \<open>
  C8. For an attribute with no loader and no initializer, \<^verbatim>\<open>Load\<close> and \<^verbatim>\<open>LoadAll\<close> of
  \<^verbatim>\<open>AttrDataLoader\<close> return an \<^verbatim>\<open>AttrNotRegError\<close>, \<^verbatim>\<open>Prime\<close> (and \<^verbatim>\<open>prime\<close> with either
  flag) returns false, \<^verbatim>\<open>ForcePrime\<close> and \<^verbatim>\<open>Clear\<close> do nothing, and the loader is left as
  it was; for an object type with no loader and no initializer, \<^verbatim>\<open>Load\<close> and \<^verbatim>\<open>LoadAll\<close>
  of \<^verbatim>\<open>ObjAttrDataLoader\<close> return an \<^verbatim>\<open>ObjTypeNotRegError\<close>.
\<close>

theorem unregistered_errors:
  "(loaders l attribute = None \<and> initLoaders l attribute = None \<longrightarrow>
      Attr_Load env attribute key l = Ok ((INil, Some (AttrNotRegError (attr_msg attribute))), l) \<and>
      (\<exists>values. Attr_LoadAll envs attribute ks l =
         Ok ((values, Some [Some (AttrNotRegError (attr_msg attribute))]), l)) \<and>
      Attr_Prime attribute key val l = Ok (False, l) \<and>
      Attr_prime attribute key val forcePrime l = Ok (False, l) \<and>
      Attr_ForcePrime attribute key val l = Ok l \<and>
      Attr_Clear attribute key l = Ok l) \<and>
   (obj_loaders ol objectType = None \<and> obj_initLoaders ol objectType = None \<longrightarrow>
      Obj_Load env objectType attribute key ol =
        Ok ((INil, Some (ObjTypeNotRegError (obj_msg objectType))), ol) \<and>
      (\<exists>values. Obj_LoadAll envs objectType attribute ks ol =
         Ok ((values, Some [Some (ObjTypeNotRegError (obj_msg objectType))]), ol)))"
  by (simp add: Attr_Load_def Attr_LoadAll_def Attr_Prime_def Attr_prime_def Attr_ForcePrime_def
      Attr_Clear_def Attr_loader_def Obj_Load_def Obj_LoadAll_def Obj_loader_def obind_def
      NewAttrNotRegError_def NewObjTypeNotRegError_def)

theorem unregistered_errors_witness:
  "loaders accounts (IStr ''email'') = None \<and> initLoaders accounts (IStr ''email'') = None \<and>
   Attr_Load [] (IStr ''email'') (IStr ''k'') accounts =
     Ok ((INil, Some (AttrNotRegError ''no dataloader for attribute 'email' registered'')), accounts) \<and>
   Attr_Prime (IStr ''email'') (IStr ''k'') (IStr ''v'') accounts = Ok (False, accounts) \<and>
   Attr_Clear (IStr ''email'') (IStr ''k'') accounts = Ok accounts \<and>
   obj_loaders (NewObjAttrDataLoader None) (IStr ''account'') = None \<and>
   obj_initLoaders (NewObjAttrDataLoader None) (IStr ''account'') = None \<and>
   Obj_Load [] (IStr ''account'') (IStr ''id'') (IStr ''k'') (NewObjAttrDataLoader None) =
     Ok ((INil, Some (ObjTypeNotRegError ''no dataloader for objectType 'account' registered'')),
         NewObjAttrDataLoader None)"
  using unregistered_errors [where l = accounts and attribute = "IStr ''email''" and env = "[]"
      and key = "IStr ''k''" and envs = "\<lambda>i. []" and ks = "[]" and val = "IStr ''v''"
      and forcePrime = False and ol = "NewObjAttrDataLoader None" and objectType = "IStr ''account''"]
    unregistered_errors [where l = accounts and attribute = "IStr ''id''" and env = "[]"
      and key = "IStr ''k''" and envs = "\<lambda>i. []" and ks = "[]" and val = "IStr ''v''"
      and forcePrime = False and ol = "NewObjAttrDataLoader None" and objectType = "IStr ''account''"]
  by (simp add: accounts_def NewAttrDataLoader_def NewObjAttrDataLoader_def attr_msg_def obj_msg_def)

text \<open>
  C10. For every key list, \<^verbatim>\<open>AttrDataLoader.LoadAll\<close> on an attribute with no loader and
  no initializer returns the nil slice of values and a slice of exactly one error, an
  \<^verbatim>\<open>AttrNotRegError\<close>; \<^verbatim>\<open>ObjAttrDataLoader.LoadAll\<close> on an object type with no loader and
  no initializer does the same with an \<^verbatim>\<open>ObjTypeNotRegError\<close>.
\<close>

theorem unregistered_LoadAll_shape:
  "(loaders l attribute = None \<and> initLoaders l attribute = None \<longrightarrow>
      (\<exists>errs msg. Attr_LoadAll envs attribute ks l = Ok ((None, errs), l) \<and> len errs = 1 \<and>
         errs = Some [Some (AttrNotRegError msg)])) \<and>
   (obj_loaders ol objectType = None \<and> obj_initLoaders ol objectType = None \<longrightarrow>
      (\<exists>errs msg. Obj_LoadAll envs objectType attribute ks ol = Ok ((None, errs), ol) \<and> len errs = 1 \<and>
         errs = Some [Some (ObjTypeNotRegError msg)]))"
  by (simp add: Attr_LoadAll_def Attr_loader_def Obj_LoadAll_def Obj_loader_def obind_def
      NewAttrNotRegError_def NewObjTypeNotRegError_def len_def)

theorem unregistered_LoadAll_shape_witness:
  "loaders accounts (IStr ''email'') = None \<and> initLoaders accounts (IStr ''email'') = None \<and>
   Attr_LoadAll (\<lambda>i. []) (IStr ''email'') [IStr ''a'', IStr ''b'', IStr ''c''] accounts =
     Ok ((None, Some [Some (AttrNotRegError ''no dataloader for attribute 'email' registered'')]), accounts) \<and>
   obj_loaders (NewObjAttrDataLoader None) (IStr ''account'') = None \<and>
   obj_initLoaders (NewObjAttrDataLoader None) (IStr ''account'') = None \<and>
   Obj_LoadAll (\<lambda>i. []) (IStr ''account'') (IStr ''id'') [] (NewObjAttrDataLoader None) =
     Ok ((None, Some [Some (ObjTypeNotRegError ''no dataloader for objectType 'account' registered'')]),
         NewObjAttrDataLoader None)"
  using unregistered_LoadAll_shape [where l = accounts and attribute = "IStr ''email''"
      and envs = "\<lambda>i. []" and ks = "[IStr ''a'', IStr ''b'', IStr ''c'']"
      and ol = "NewObjAttrDataLoader None" and objectType = "IStr ''account''"]
    unregistered_LoadAll_shape [where l = accounts and attribute = "IStr ''id''"
      and envs = "\<lambda>i. []" and ks = "[]"
      and ol = "NewObjAttrDataLoader None" and objectType = "IStr ''account''"]
  by (simp add: accounts_def NewAttrDataLoader_def NewObjAttrDataLoader_def attr_msg_def obj_msg_def
       Attr_LoadAll_def Attr_loader_def Obj_LoadAll_def Obj_loader_def obind_def
      NewAttrNotRegError_def NewObjTypeNotRegError_def)

text \<open>
  C2. \<^verbatim>\<open>AttrDataLoader.LoadAll\<close> hands the propagator the indices of the values, one call
  for every index, whether or not the error at that index is nil: for the keys
  \<^verbatim>\<open>"bad"\<close>, \<^verbatim>\<open>"a"\<close>, of which the first fails, the propagator is called with 0 and with 1,
  not once with the value loaded for \<^verbatim>\<open>"a"\<close>. \<^verbatim>\<open>AttrDataLoader.Load\<close> passes the loaded
  value and skips the failed key.
\<close>

theorem LoadAll_propagates_indices:
  "(case Attr_LoadAll (\<lambda>i. []) (IStr ''id'') [IStr ''bad'', IStr ''a''] accounts of
      Ok ((values, errs), l) \<Rightarrow>
        values = Some [IStr ''bad'', IStr ''a''] \<and>
        errs = Some [Some (OtherError ''no such key''), None] \<and>
        prop_calls l = [(IStr ''id'', IInt 0), (IStr ''id'', IInt 1)]
    | _ \<Rightarrow> False) \<and>
   (case Attr_Load [] (IStr ''id'') (IStr ''a'') accounts of
      Ok ((value, err), l) \<Rightarrow> value = IStr ''a'' \<and> err = None \<and> prop_calls l = [(IStr ''id'', IStr ''a'')]
    | _ \<Rightarrow> False) \<and>
   (case Attr_Load [] (IStr ''id'') (IStr ''bad'') accounts of
      Ok ((value, err), l) \<Rightarrow> err = Some (OtherError ''no such key'') \<and> prop_calls l = []
    | _ \<Rightarrow> False)"
  by code_simp

subsection \<open>Lazy initialization\<close>

lemma obind_Ok: "obind x f = Ok y \<longleftrightarrow> (\<exists>a. x = Ok a \<and> f a = Ok y)"
  by (cases x) (simp_all add: obind_def)

lemma inits_ok_New: "inits_ok (NewAttrDataLoader inits props)"
  by (simp add: inits_ok_def NewAttrDataLoader_def)

lemma obj_inits_ok_New: "obj_inits_ok (NewObjAttrDataLoader inits)"
  by (simp add: obj_inits_ok_def NewObjAttrDataLoader_def)

lemma inits_ok_update:
  "inits_ok l \<Longrightarrow> loaders l a \<noteq> None \<Longrightarrow> inits_ok (l\<lparr>loaders := (loaders l)(a \<mapsto> x)\<rparr>)"
  by (simp add: inits_ok_def)

lemma inits_ok_props:
  "inits_ok l \<Longrightarrow> inits_ok (l\<lparr>prop_calls := x\<rparr>)"
  by (simp add: inits_ok_def)

lemma Attr_loader_ok:
  assumes "Attr_loader a l = Ok (ld, l')" "inits_ok l"
  shows "inits_ok l' \<and> (ld \<noteq> Null \<longrightarrow> loaders l' a = Some ld)"
proof (cases "loaders l a")
  case (Some x)
  then show ?thesis using assms by (simp add: Attr_loader_def)
next
  case None
  show ?thesis
  proof (cases "initLoaders l a")
    case n: None
    then show ?thesis using assms None by (auto simp add: Attr_loader_def)
  next
    case (Some i)
    then obtain x where i: "i = Func x" using assms None by (cases i) (simp_all add: Attr_loader_def)
    have l': "l' = l\<lparr>init_calls := init_calls l @ [a], initLoaders := (initLoaders l)(a \<mapsto> NilFunc),
                     loaders := (loaders l)(a \<mapsto> x)\<rparr>" and ld: "ld = x"
      using assms None Some i by (auto simp add: Attr_loader_def)
    have "inits_ok l'" using assms(2) None by (simp add: l' inits_ok_def)
    then show ?thesis by (simp add: l' ld)
  qed
qed

lemma Attr_loader_stored:
  "loaders l a = Some ld \<Longrightarrow> Attr_loader a l = Ok (ld, l)"
  by (simp add: Attr_loader_def)

lemma Attr_prime_ok:
  assumes "Attr_prime a k v f l = Ok (r, l')" "inits_ok l"
  shows "inits_ok l'"
proof -
  from assms(1) obtain ld l1 where 1: "Attr_loader a l = Ok (ld, l1)"
    by (auto simp: Attr_prime_def obind_Ok)
  from Attr_loader_ok [OF 1 assms(2)] have 2: "inits_ok l1" "ld \<noteq> Null \<Longrightarrow> loaders l1 a = Some ld" by simp_all
  show ?thesis
  proof (cases ld)
    case Null
    then show ?thesis using assms(1) 1 2 by (simp add: Attr_prime_def obind_def)
  next
    case (Ptr d)
    then have "loaders l1 a \<noteq> None" using 2 by simp
    from inits_ok_update [OF 2(1) this] show ?thesis
      using assms(1) 1 Ptr by (auto simp add: Attr_prime_def obind_def case_prod_beta)
  qed
qed

lemma Attr_Clear_ok:
  assumes "Attr_Clear a k l = Ok l'" "inits_ok l"
  shows "inits_ok l'"
proof -
  from assms(1) obtain ld l1 where 1: "Attr_loader a l = Ok (ld, l1)"
    by (auto simp: Attr_Clear_def obind_Ok)
  from Attr_loader_ok [OF 1 assms(2)] have 2: "inits_ok l1" "ld \<noteq> Null \<Longrightarrow> loaders l1 a = Some ld" by simp_all
  show ?thesis
  proof (cases ld)
    case Null
    then show ?thesis using assms(1) 1 2 by (simp add: Attr_Clear_def obind_def)
  next
    case (Ptr d)
    then have "loaders l1 a \<noteq> None" using 2 by simp
    from inits_ok_update [OF 2(1) this] show ?thesis
      using assms(1) 1 Ptr by (auto simp add: Attr_Clear_def obind_def)
  qed
qed

lemma Attr_Prime_ok: "Attr_Prime a k v l = Ok (r, l') \<Longrightarrow> inits_ok l \<Longrightarrow> inits_ok l'"
  using Attr_prime_ok by (simp add: Attr_Prime_def)

lemma Attr_ForcePrime_ok: "Attr_ForcePrime a k v l = Ok l' \<Longrightarrow> inits_ok l \<Longrightarrow> inits_ok l'"
  using Attr_prime_ok by (auto simp add: Attr_ForcePrime_def obind_Ok)

lemma do_cache_call_ok: "do_cache_call c l = Ok l' \<Longrightarrow> inits_ok l \<Longrightarrow> inits_ok l'"
  using Attr_Prime_ok Attr_ForcePrime_ok Attr_Clear_ok
  by (cases c) (auto simp add: obind_Ok)

lemma do_cache_calls_ok: "do_cache_calls cs l = Ok l' \<Longrightarrow> inits_ok l \<Longrightarrow> inits_ok l'"
proof (induction cs arbitrary: l)
  case Nil
  then show ?case by simp
next
  case (Cons c cs)
  then show ?case using do_cache_call_ok by (auto simp add: obind_Ok)
qed

lemma RunPropagator_ok:
  assumes "RunPropagator v a l = Ok l'" "inits_ok l"
  shows "inits_ok l'"
proof (cases "propagators l a")
  case None
  then show ?thesis using assms by (simp add: RunPropagator_def)
next
  case (Some p)
  then obtain g where g: "p = Func g" using assms by (cases p) (simp_all add: RunPropagator_def)
  have "do_cache_calls (g v) (l\<lparr>prop_calls := prop_calls l @ [(a, v)]\<rparr>) = Ok l'"
    using assms(1) Some g by (simp add: RunPropagator_def)
  from do_cache_calls_ok [OF this inits_ok_props [OF assms(2)]] show ?thesis .
qed

lemma range_propagate_ok: "range_propagate is a l = Ok l' \<Longrightarrow> inits_ok l \<Longrightarrow> inits_ok l'"
proof (induction "is" arbitrary: l)
  case Nil
  then show ?case by simp
next
  case (Cons i "is")
  then show ?case using RunPropagator_ok by (auto simp add: obind_Ok)
qed

lemma Attr_Load_ok:
  assumes "Attr_Load env a k l = Ok (r, l')" "inits_ok l"
  shows "inits_ok l'"
proof -
  from assms(1) obtain ld l1 where 1: "Attr_loader a l = Ok (ld, l1)"
    by (auto simp: Attr_Load_def obind_Ok)
  from Attr_loader_ok [OF 1 assms(2)] have 2: "inits_ok l1" "ld \<noteq> Null \<Longrightarrow> loaders l1 a = Some ld" by simp_all
  show ?thesis
  proof (cases ld)
    case Null
    then show ?thesis using assms(1) 1 2 by (simp add: Attr_Load_def obind_def)
  next
    case (Ptr d)
    then have n: "loaders l1 a \<noteq> None" using 2 by simp
    from assms(1) 1 Ptr obtain v e d' where
      3: "obind (if e = None
                 then RunPropagator v a (l1\<lparr>loaders := (loaders l1)(a \<mapsto> Ptr d')\<rparr>)
                 else Ok (l1\<lparr>loaders := (loaders l1)(a \<mapsto> Ptr d')\<rparr>)) (\<lambda>l2. Ok ((v, e), l2)) = Ok (r, l')"
      by (auto simp add: Attr_Load_def obind_Ok)
    show ?thesis using 3 RunPropagator_ok inits_ok_update [OF 2(1) n, of "Ptr d'"]
      by (auto simp add: obind_Ok split: if_splits)
  qed
qed

lemma Attr_LoadAll_ok:
  assumes "Attr_LoadAll env a ks l = Ok (r, l')" "inits_ok l"
  shows "inits_ok l'"
proof -
  from assms(1) obtain ld l1 where 1: "Attr_loader a l = Ok (ld, l1)"
    by (auto simp: Attr_LoadAll_def obind_Ok)
  from Attr_loader_ok [OF 1 assms(2)] have 2: "inits_ok l1" "ld \<noteq> Null \<Longrightarrow> loaders l1 a = Some ld" by simp_all
  show ?thesis
  proof (cases ld)
    case Null
    then show ?thesis using assms(1) 1 2 by (simp add: Attr_LoadAll_def obind_def)
  next
    case (Ptr d)
    then have n: "loaders l1 a \<noteq> None" using 2 by simp
    from assms(1) 1 Ptr obtain vs :: "Value slice" and d' where
      3: "range_propagate [0..<len vs] a (l1\<lparr>loaders := (loaders l1)(a \<mapsto> Ptr d')\<rparr>) = Ok l'"
      by (auto simp add: Attr_LoadAll_def obind_Ok)
    show ?thesis using range_propagate_ok [OF 3 inits_ok_update [OF 2(1) n]] .
  qed
qed

lemma do_attr_call_ok: "do_attr_call c l = Ok l' \<Longrightarrow> inits_ok l \<Longrightarrow> inits_ok l'"
  using Attr_Load_ok Attr_LoadAll_ok Attr_Prime_ok Attr_ForcePrime_ok Attr_Clear_ok
  by (cases c) (auto simp add: obind_Ok)

lemma do_attr_calls_ok: "do_attr_calls cs l = Ok l' \<Longrightarrow> inits_ok l \<Longrightarrow> inits_ok l'"
proof (induction cs arbitrary: l)
  case Nil
  then show ?case by simp
next
  case (Cons c cs)
  then show ?case using do_attr_call_ok by (auto simp add: obind_Ok)
qed

lemma obj_inits_ok_update:
  "obj_inits_ok l \<Longrightarrow> obj_loaders l t \<noteq> None \<Longrightarrow>
     obj_inits_ok (l\<lparr>obj_loaders := (obj_loaders l)(t \<mapsto> x)\<rparr>)"
  by (simp add: obj_inits_ok_def)

lemma Obj_loader_ok:
  assumes "Obj_loader t l = Ok (ld, l')" "obj_inits_ok l"
  shows "obj_inits_ok l' \<and> (ld \<noteq> Null \<longrightarrow> obj_loaders l' t = Some ld)"
proof (cases "obj_loaders l t")
  case (Some x)
  then show ?thesis using assms by (simp add: Obj_loader_def)
next
  case None
  show ?thesis
  proof (cases "obj_initLoaders l t")
    case n: None
    then show ?thesis using assms None by (auto simp add: Obj_loader_def)
  next
    case (Some i)
    then obtain x where i: "i = Func x" using assms None by (cases i) (simp_all add: Obj_loader_def)
    have l': "l' = l\<lparr>obj_init_calls := obj_init_calls l @ [t],
                     obj_initLoaders := (obj_initLoaders l)(t \<mapsto> NilFunc),
                     obj_loaders := (obj_loaders l)(t \<mapsto> x)\<rparr>" and ld: "ld = x"
      using assms None Some i by (auto simp add: Obj_loader_def)
    have "obj_inits_ok l'" using assms(2) None by (simp add: l' obj_inits_ok_def)
    then show ?thesis by (simp add: l' ld)
  qed
qed

lemma Obj_loader_stored:
  "obj_loaders l t = Some ld \<Longrightarrow> Obj_loader t l = Ok (ld, l)"
  by (simp add: Obj_loader_def)

lemma Obj_Load_ok:
  assumes "Obj_Load env t a k l = Ok (r, l')" "obj_inits_ok l"
  shows "obj_inits_ok l'"
proof -
  from assms(1) obtain ld l1 where 1: "Obj_loader t l = Ok (ld, l1)"
    by (auto simp: Obj_Load_def obind_Ok)
  from Obj_loader_ok [OF 1 assms(2)] have 2: "obj_inits_ok l1" "ld \<noteq> Null \<Longrightarrow> obj_loaders l1 t = Some ld"
    by simp_all
  show ?thesis
  proof (cases ld)
    case Null
    then show ?thesis using assms(1) 1 2 by (simp add: Obj_Load_def obind_def)
  next
    case (Ptr x)
    then have "obj_loaders l1 t \<noteq> None" using 2 by simp
    from obj_inits_ok_update [OF 2(1) this] show ?thesis
      using assms(1) 1 Ptr by (auto simp add: Obj_Load_def obind_Ok)
  qed
qed

lemma Obj_LoadAll_ok:
  assumes "Obj_LoadAll env t a ks l = Ok (r, l')" "obj_inits_ok l"
  shows "obj_inits_ok l'"
proof -
  from assms(1) obtain ld l1 where 1: "Obj_loader t l = Ok (ld, l1)"
    by (auto simp: Obj_LoadAll_def obind_Ok)
  from Obj_loader_ok [OF 1 assms(2)] have 2: "obj_inits_ok l1" "ld \<noteq> Null \<Longrightarrow> obj_loaders l1 t = Some ld"
    by simp_all
  show ?thesis
  proof (cases ld)
    case Null
    then show ?thesis using assms(1) 1 2 by (simp add: Obj_LoadAll_def obind_def)
  next
    case (Ptr x)
    then have "obj_loaders l1 t \<noteq> None" using 2 by simp
    from obj_inits_ok_update [OF 2(1) this] show ?thesis
      using assms(1) 1 Ptr by (auto simp add: Obj_LoadAll_def obind_Ok)
  qed
qed

lemma Obj_prime_ok:
  assumes "Obj_prime t a k v f l = Ok (r, l')" "obj_inits_ok l"
  shows "obj_inits_ok l'"
proof -
  from assms(1) obtain ld l1 where 1: "Obj_loader t l = Ok (ld, l1)"
    by (auto simp: Obj_prime_def obind_Ok)
  from Obj_loader_ok [OF 1 assms(2)] have 2: "obj_inits_ok l1" "ld \<noteq> Null \<Longrightarrow> obj_loaders l1 t = Some ld"
    by simp_all
  show ?thesis
  proof (cases ld)
    case Null
    then show ?thesis using assms(1) 1 2 by (simp add: Obj_prime_def obind_def)
  next
    case (Ptr x)
    then have "obj_loaders l1 t \<noteq> None" using 2 by simp
    from obj_inits_ok_update [OF 2(1) this] show ?thesis
      using assms(1) 1 Ptr by (auto simp add: Obj_prime_def obind_Ok)
  qed
qed

lemma Obj_Clear_ok:
  assumes "Obj_Clear t a k l = Ok l'" "obj_inits_ok l"
  shows "obj_inits_ok l'"
proof -
  from assms(1) obtain ld l1 where 1: "Obj_loader t l = Ok (ld, l1)"
    by (auto simp: Obj_Clear_def obind_Ok)
  from Obj_loader_ok [OF 1 assms(2)] have 2: "obj_inits_ok l1" "ld \<noteq> Null \<Longrightarrow> obj_loaders l1 t = Some ld"
    by simp_all
  show ?thesis
  proof (cases ld)
    case Null
    then show ?thesis using assms(1) 1 2 by (simp add: Obj_Clear_def obind_def)
  next
    case (Ptr x)
    then have "obj_loaders l1 t \<noteq> None" using 2 by simp
    from obj_inits_ok_update [OF 2(1) this] show ?thesis
      using assms(1) 1 Ptr by (auto simp add: Obj_Clear_def obind_Ok)
  qed
qed

lemma do_obj_call_ok: "do_obj_call c l = Ok l' \<Longrightarrow> obj_inits_ok l \<Longrightarrow> obj_inits_ok l'"
  using Obj_Load_ok Obj_LoadAll_ok Obj_prime_ok Obj_Clear_ok
  by (cases c) (auto simp add: obind_Ok Obj_Prime_def Obj_ForcePrime_def)

lemma do_obj_calls_ok: "do_obj_calls cs l = Ok l' \<Longrightarrow> obj_inits_ok l \<Longrightarrow> obj_inits_ok l'"
proof (induction cs arbitrary: l)
  case Nil
  then show ?case by simp
next
  case (Cons c cs)
  then show ?case using do_obj_call_ok by (auto simp add: obind_Ok)
qed

text \<open>
  C6. After any sequence of calls on an \<^verbatim>\<open>AttrDataLoader\<close> made by
  \<^verbatim>\<open>NewAttrDataLoader\<close>, no initializer has been called more than once; an attribute has a
  loader in the loaders map exactly if its initializer has been called (once), its slot
  in \<^verbatim>\<open>initLoaders\<close> is then nil, and \<^verbatim>\<open>loader\<close> returns the stored loader and changes
  nothing. The same holds for the object types of an \<^verbatim>\<open>ObjAttrDataLoader\<close> made by
  \<^verbatim>\<open>NewObjAttrDataLoader\<close>.
\<close>

theorem initializers_run_once:
  assumes "do_attr_calls cs (NewAttrDataLoader inits props) = Ok l"
    and "do_obj_calls ocs (NewObjAttrDataLoader oinits) = Ok ol"
  shows "(\<forall>a. count_list (init_calls l) a \<le> 1 \<and>
              (loaders l a = None \<longrightarrow> count_list (init_calls l) a = 0) \<and>
              (\<forall>ld. loaders l a = Some ld \<longrightarrow>
                   initLoaders l a = Some NilFunc \<and> count_list (init_calls l) a = 1 \<and>
                   Attr_loader a l = Ok (ld, l))) \<and>
         (\<forall>t. count_list (obj_init_calls ol) t \<le> 1 \<and>
              (obj_loaders ol t = None \<longrightarrow> count_list (obj_init_calls ol) t = 0) \<and>
              (\<forall>ld. obj_loaders ol t = Some ld \<longrightarrow>
                   obj_initLoaders ol t = Some NilFunc \<and> count_list (obj_init_calls ol) t = 1 \<and>
                   Obj_loader t ol = Ok (ld, ol)))"
proof -
  have 1: "inits_ok l" using do_attr_calls_ok [OF assms(1) inits_ok_New] .
  have 2: "obj_inits_ok ol" using do_obj_calls_ok [OF assms(2) obj_inits_ok_New] .
  have A: "count_list (init_calls l) a \<le> 1 \<and>
              (loaders l a = None \<longrightarrow> count_list (init_calls l) a = 0) \<and>
              (\<forall>ld. loaders l a = Some ld \<longrightarrow>
                   initLoaders l a = Some NilFunc \<and> count_list (init_calls l) a = 1 \<and>
                   Attr_loader a l = Ok (ld, l))" for a
    using 1 Attr_loader_stored [of l a] by (auto simp add: inits_ok_def)
  have B: "count_list (obj_init_calls ol) t \<le> 1 \<and>
              (obj_loaders ol t = None \<longrightarrow> count_list (obj_init_calls ol) t = 0) \<and>
              (\<forall>ld. obj_loaders ol t = Some ld \<longrightarrow>
                   obj_initLoaders ol t = Some NilFunc \<and> count_list (obj_init_calls ol) t = 1 \<and>
                   Obj_loader t ol = Ok (ld, ol))" for t
    using 2 Obj_loader_stored [of ol t] by (auto simp add: obj_inits_ok_def)
  show ?thesis using A B by blast
qed

theorem initializers_run_once_witness:
  "\<exists>l ol ld old.
     do_attr_calls [ALoad [] (IStr ''id'') (IStr ''a''), ALoadAll (\<lambda>i. []) (IStr ''id'') [IStr ''a'', IStr ''b''],
                    APrime (IStr ''id'') (IStr ''c'') (IStr ''c'')] accounts = Ok l \<and>
     do_obj_calls [OLoad [] (IStr ''account'') (IStr ''id'') (IStr ''a''),
                   OClear (IStr ''account'') (IStr ''id'') (IStr ''a'')] shop = Ok ol \<and>
     loaders l (IStr ''id'') = Some ld \<and> initLoaders l (IStr ''id'') = Some NilFunc \<and>
     count_list (init_calls l) (IStr ''id'') = 1 \<and> Attr_loader (IStr ''id'') l = Ok (ld, l) \<and>
     loaders l (IStr ''email'') = None \<and> count_list (init_calls l) (IStr ''email'') = 0 \<and>
     obj_loaders ol (IStr ''account'') = Some old \<and>
     obj_initLoaders ol (IStr ''account'') = Some NilFunc \<and>
     count_list (obj_init_calls ol) (IStr ''account'') = 1 \<and>
     Obj_loader (IStr ''account'') ol = Ok (old, ol)"
proof -
  let ?cs = "[ALoad [] (IStr ''id'') (IStr ''a''), ALoadAll (\<lambda>i. []) (IStr ''id'') [IStr ''a'', IStr ''b''],
              APrime (IStr ''id'') (IStr ''c'') (IStr ''c'')]"
  let ?ocs = "[OLoad [] (IStr ''account'') (IStr ''id'') (IStr ''a''),
               OClear (IStr ''account'') (IStr ''id'') (IStr ''a'')]"
  have a: "case do_attr_calls ?cs accounts of
             Ok l \<Rightarrow> (case loaders l (IStr ''id'') of Some ld \<Rightarrow> True | None \<Rightarrow> False) \<and>
                      (case loaders l (IStr ''email'') of Some ld \<Rightarrow> False | None \<Rightarrow> True)
           | _ \<Rightarrow> False"
    by code_simp
  have b: "case do_obj_calls ?ocs shop of
             Ok ol \<Rightarrow> (case obj_loaders ol (IStr ''account'') of Some ld \<Rightarrow> True | None \<Rightarrow> False)
           | _ \<Rightarrow> False"
    by code_simp
  from a obtain l ld where l: "do_attr_calls ?cs accounts = Ok l" "loaders l (IStr ''id'') = Some ld"
    "loaders l (IStr ''email'') = None"
    by (auto split: outcome.splits option.splits)
  from b obtain ol old where ol: "do_obj_calls ?ocs shop = Ok ol" "obj_loaders ol (IStr ''account'') = Some old"
    by (auto split: outcome.splits option.splits)
  from initializers_run_once [OF l(1) [unfolded accounts_def] ol(1) [unfolded shop_def]] l(2,3) ol(2)
  have "initLoaders l (IStr ''id'') = Some NilFunc \<and>
     count_list (init_calls l) (IStr ''id'') = 1 \<and> Attr_loader (IStr ''id'') l = Ok (ld, l) \<and>
     count_list (init_calls l) (IStr ''email'') = 0 \<and>
     obj_initLoaders ol (IStr ''account'') = Some NilFunc \<and>
     count_list (obj_init_calls ol) (IStr ''account'') = 1 \<and>
     Obj_loader (IStr ''account'') ol = Ok (old, ol)"
    by blast
  then show ?thesis using l ol by blast
qed

end
